theory Spec2Isabelle
  imports Main "HOL-Library.Word" "HOL-Library.Monad_Syntax"
begin

section \<open>JavaScript strings\<close>

text \<open>
  A JavaScript string is a sequence of UTF-16 code units; \<open>length\<close>, \<open>substring\<close>,
  \<open>trim\<close> and the regular expressions of \<open>parseTasksFile\<close> (none has the \<open>u\<close> flag)
  all work on code units. A string is therefore a list of 16-bit words, and \<open>str\<close>
  writes an ASCII literal of the source as such a list.
\<close>

type_synonym cu = "16 word"
type_synonym jsstring = "cu list"

definition str :: "string \<Rightarrow> jsstring" where
  "str s = map of_char s"

text \<open>The class \<open>\d\<close>: the ten ASCII digits.\<close>

definition is_digit :: "cu \<Rightarrow> bool" where
  "is_digit c \<longleftrightarrow> 0x30 \<le> c \<and> c \<le> 0x39"

text \<open>
  The class \<open>.\<close> (no \<open>s\<close> flag): every code unit but the four line terminators
  LF, CR, U+2028 and U+2029.
\<close>

definition is_line_terminator :: "cu \<Rightarrow> bool" where
  "is_line_terminator c \<longleftrightarrow> c = 0x0A \<or> c = 0x0D \<or> c = 0x2028 \<or> c = 0x2029"

definition dot :: "cu \<Rightarrow> bool" where
  "dot c \<longleftrightarrow> \<not> is_line_terminator c"

text \<open>
  What \<open>String.prototype.trim\<close> strips from both ends: the code points of WhiteSpace
  (TAB, VT, FF, SP, NBSP, U+FEFF and the space separators U+1680, U+2000 to U+200A, U+202F,
  U+205F, U+3000) and the line terminators.
\<close>

definition is_white_space :: "cu \<Rightarrow> bool" where
  "is_white_space c \<longleftrightarrow>
     c = 0x09 \<or> c = 0x0B \<or> c = 0x0C \<or> c = 0x20 \<or> c = 0xA0 \<or> c = 0xFEFF \<or>
     c = 0x1680 \<or> (0x2000 \<le> c \<and> c \<le> 0x200A) \<or> c = 0x202F \<or> c = 0x205F \<or> c = 0x3000 \<or>
     is_line_terminator c"

definition trim :: "jsstring \<Rightarrow> jsstring" where
  "trim s = rev (dropWhile is_white_space (rev (dropWhile is_white_space s)))"

text \<open>
  \<open>toLowerCase\<close> is only ever applied to the one-character capture of \<open>[ xX]\<close>; on
  those characters (and on all of ASCII) it is the map below.
\<close>

definition toLowerCase :: "jsstring \<Rightarrow> jsstring" where
  "toLowerCase s = map (\<lambda>c. if 0x41 \<le> c \<and> c \<le> 0x5A then c + 0x20 else c) s"

text \<open>\<open>content.split('\n')\<close>: the pieces between line feeds; the empty string gives one empty line.\<close>

fun split_nl :: "jsstring \<Rightarrow> jsstring list" where
  "split_nl [] = [[]]"
| "split_nl (c # cs) =
     (if c = 0x0A then [] # split_nl cs
      else (case split_nl cs of [] \<Rightarrow> [[c]] | l # ls \<Rightarrow> (c # l) # ls))"

section \<open>The regular expressions\<close>

text \<open>
  The patterns of the source are built from literals, one character class and the greedy
  quantifier \<open>+\<close> on a character class. A matcher takes the text at the current position
  and returns what follows the match. \<open>lit\<close> matches a literal. \<open>greedy_plus P\<close> lists the
  ways \<open>P+\<close> can match, longest first, each as (matched text, rest): this is the order
  in which a backtracking matcher tries them, and \<open>first_match\<close> runs the rest of the
  pattern on each until one succeeds.
\<close>

fun lit :: "jsstring \<Rightarrow> jsstring \<Rightarrow> jsstring option" where
  "lit [] s = Some s"
| "lit (p # ps) [] = None"
| "lit (p # ps) (c # cs) = (if p = c then lit ps cs else None)"

fun greedy_plus :: "(cu \<Rightarrow> bool) \<Rightarrow> jsstring \<Rightarrow> (jsstring \<times> jsstring) list" where
  "greedy_plus P [] = []"
| "greedy_plus P (c # cs) =
     (if P c then map (\<lambda>(m, r). (c # m, r)) (greedy_plus P cs) @ [([c], cs)] else [])"

fun first_match :: "('a \<Rightarrow> 'b option) \<Rightarrow> 'a list \<Rightarrow> 'b option" where
  "first_match k [] = None"
| "first_match k (x # xs) = (case k x of Some y \<Rightarrow> Some y | None \<Rightarrow> first_match k xs)"

text \<open>The class \<open>[ xX]\<close>, captured.\<close>

fun marker :: "jsstring \<Rightarrow> (cu \<times> jsstring) option" where
  "marker [] = None"
| "marker (c # cs) = (if c = 0x20 \<or> c = 0x78 \<or> c = 0x58 then Some (c, cs) else None)"

text \<open>
  \<open>line.match(/^## (Phase \d+): (.+)/)\<close>: the pattern is anchored at the start of the line
  (no \<open>m\<close> flag); the result holds the two captures.
\<close>

definition match_phase :: "jsstring \<Rightarrow> (jsstring \<times> jsstring) option" where
  "match_phase line = do {
     r1 \<leftarrow> lit (str ''## '') line;
     r2 \<leftarrow> lit (str ''Phase '') r1;
     first_match (\<lambda>(ds, r3). do {
         r4 \<leftarrow> lit (str '': '') r3;
         first_match (\<lambda>(title, r5). Some (str ''Phase '' @ ds, title)) (greedy_plus dot r4)
       }) (greedy_plus is_digit r2)
   }"

text \<open>\<open>line.match(/^- \[([ xX])\] (T\d+)(.+)/)\<close>, with its three captures.\<close>

definition match_task :: "jsstring \<Rightarrow> (cu \<times> jsstring \<times> jsstring) option" where
  "match_task line = do {
     r1 \<leftarrow> lit (str ''- ['') line;
     (m, r2) \<leftarrow> marker r1;
     r3 \<leftarrow> lit (str ''] '') r2;
     r4 \<leftarrow> lit (str ''T'') r3;
     first_match (\<lambda>(ds, r5).
         first_match (\<lambda>(d, r6). Some (m, str ''T'' @ ds, d)) (greedy_plus dot r5))
       (greedy_plus is_digit r4)
   }"

text \<open>
  The pattern \<open>\[US\d+\]\<close> tried at the current position: the matched text and the rest.
  \<open>description.match(/\[US\d+\]/)\<close> is not anchored: it tries every position from the left
  and returns the first match.
\<close>

definition match_us :: "jsstring \<Rightarrow> (jsstring \<times> jsstring) option" where
  "match_us s = do {
     r1 \<leftarrow> lit (str ''[US'') s;
     first_match (\<lambda>(ds, r2). do {
         r3 \<leftarrow> lit (str '']'') r2;
         Some (str ''[US'' @ ds @ str '']'', r3)
       }) (greedy_plus is_digit r1)
   }"

fun search_us :: "jsstring \<Rightarrow> jsstring option" where
  "search_us [] = None"
| "search_us (c # cs) =
     (case match_us (c # cs) of Some (m, r) \<Rightarrow> Some m | None \<Rightarrow> search_us cs)"

text \<open>\<open>description.includes('[P]')\<close>.\<close>

fun includes_str :: "jsstring \<Rightarrow> jsstring \<Rightarrow> bool" where
  "includes_str [] p = (p = [])"
| "includes_str (c # cs) p = (lit p (c # cs) \<noteq> None \<or> includes_str cs p)"

text \<open>
  \<open>.replace(/\[P\]/g, '')\<close> and \<open>.replace(/\[US\d+\]/g, '')\<close>: one pass from the left; where
  the pattern matches, the match is dropped and the scan goes on after it; elsewhere one
  code unit is copied. Text already copied is not scanned again.
\<close>

function replace_P :: "jsstring \<Rightarrow> jsstring" where
  "replace_P [] = []"
| "replace_P (c # cs) =
     (case lit (str ''[P]'') (c # cs) of Some r \<Rightarrow> replace_P r | None \<Rightarrow> c # replace_P cs)"
  by pat_completeness auto
termination
proof -
  have len: "length s = length p + length r" if "lit p s = Some r" for p s r :: jsstring
    using that by (induction p s rule: lit.induct) (auto split: if_splits)
  have dec: "length r < Suc (length cs)" if "lit (str ''[P]'') (c # cs) = Some r" for c cs r
    using len [OF that] by (simp add: str_def)
  show ?thesis
    by (relation "measure length") (auto dest: dec)
qed

function replace_us :: "jsstring \<Rightarrow> jsstring" where
  "replace_us [] = []"
| "replace_us (c # cs) =
     (case match_us (c # cs) of Some (m, r) \<Rightarrow> replace_us r | None \<Rightarrow> c # replace_us cs)"
  by pat_completeness auto
termination
proof -
  have len: "length s = length p + length r" if "lit p s = Some r" for p s r :: jsstring
    using that by (induction p s rule: lit.induct) (auto split: if_splits)
  have plus: "length r \<le> length s" if "(m, r) \<in> set (greedy_plus P s)" for P m r s
    using that by (induction s arbitrary: m) (auto split: if_splits intro: le_SucI)
  have fm: "\<exists>x \<in> set xs. k x = Some y" if "first_match k xs = Some y"
    for k :: "jsstring \<times> jsstring \<Rightarrow> (jsstring \<times> jsstring) option" and xs y
    using that by (induction xs) (auto split: option.splits)
  have dec: "length r < Suc (length cs)" if "match_us (c # cs) = Some (m, r)" for c cs m r
  proof -
    from that obtain r1 where r1: "lit (str ''[US'') (c # cs) = Some r1"
      and "first_match (\<lambda>(ds, r2). do {
         r3 \<leftarrow> lit (str '']'') r2;
         Some (str ''[US'' @ ds @ str '']'', r3)
       }) (greedy_plus is_digit r1) = Some (m, r)"
      by (auto simp: match_us_def split: Option.bind_splits)
    from fm [OF this(2)] obtain ds r2 where in_plus: "(ds, r2) \<in> set (greedy_plus is_digit r1)"
      and "lit (str '']'') r2 = Some r"
      by (auto split: Option.bind_splits)
    from len [OF r1] len [OF this(2)] plus [OF in_plus] show ?thesis
      by (simp add: str_def)
  qed
  show ?thesis
    by (relation "measure length") (auto dest: dec)
qed

section \<open>Tree items\<close>

text \<open>
  \<open>TaskItem\<close> is one class for phases and tasks, told apart by \<open>type\<close>. The constructor
  stores \<open>label\<close>, \<open>filePath\<close>, \<open>type\<close> and \<open>taskData\<close> (null for a phase); everything else
  it sets (tooltip, command, icon, collapsible state) is computed from these and is left out.
  \<open>tasks\<close> is assigned to a phase when it is closed; an item that never had it assigned
  holds the empty list here (its only reader, \<open>getChildren\<close>, takes \<open>element.tasks || []\<close>).
\<close>

datatype item_type = phase | task

record TaskData =
  taskId :: jsstring
  description :: jsstring
  isCompleted :: bool
  hasParallel :: bool
  story :: jsstring
  lineNumber :: nat

datatype TaskItem =
  TaskItem (label: jsstring) (filePath: jsstring) (type: item_type)
    (taskData: "TaskData option") (tasks: "TaskItem list")

text \<open>The assignment \<open>currentPhase.tasks = currentTasks\<close>.\<close>

fun set_tasks :: "TaskItem \<Rightarrow> TaskItem list \<Rightarrow> TaskItem" where
  "set_tasks (TaskItem l f t d _) ts = TaskItem l f t d ts"

section \<open>parseTasksFile\<close>

text \<open>
  The body of \<open>if (taskMatch && currentPhase)\<close> up to the construction of the item, from
  the three captures of the task pattern and the line index \<open>i\<close>. The three icons are
  U+2713, U+26A1 and U+25CB.
\<close>

definition clean :: "jsstring \<Rightarrow> jsstring" where
  "clean d = trim (replace_us (replace_P d))"

definition truncate_desc :: "jsstring \<Rightarrow> jsstring" where
  "truncate_desc cleanDesc =
     (if length cleanDesc > 80 then take 77 cleanDesc @ str ''...'' else cleanDesc)"

definition make_task :: "jsstring \<Rightarrow> nat \<Rightarrow> cu \<times> jsstring \<times> jsstring \<Rightarrow> TaskItem" where
  "make_task path i taskMatch =
     (case taskMatch of (g1, g2, g3) \<Rightarrow>
        let isCompleted = (toLowerCase [g1] = str ''x'');
            taskId = g2;
            description = trim g3;
            hasParallel = includes_str description (str ''[P]'');
            story = (case search_us description of Some m \<Rightarrow> m | None \<Rightarrow> []);
            cleanDesc = truncate_desc (clean description);
            label = trim (taskId @ str '' '' @ story @ str '' '' @ cleanDesc);
            icon = (if isCompleted then [0x2713] else if hasParallel then [0x26A1] else [0x25CB])
        in TaskItem (icon @ str '' '' @ label) path task
             (Some \<lparr>taskId = taskId, description = cleanDesc, isCompleted = isCompleted,
                    hasParallel = hasParallel, story = story, lineNumber = i\<rparr>) [])"

text \<open>The three variables of the loop.\<close>

record parse_state =
  phases :: "TaskItem list"
  currentPhase :: "TaskItem option"
  currentTasks :: "TaskItem list"

definition init_state :: parse_state where
  "init_state = \<lparr>phases = [], currentPhase = None, currentTasks = []\<rparr>"

text \<open>\<open>if (currentPhase) { currentPhase.tasks = currentTasks; phases.push(currentPhase); }\<close>\<close>

definition close_phase :: "parse_state \<Rightarrow> TaskItem list" where
  "close_phase st =
     (case currentPhase st of
        Some p \<Rightarrow> phases st @ [set_tasks p (currentTasks st)]
      | None \<Rightarrow> phases st)"

text \<open>One iteration of the loop on line \<open>i\<close>.\<close>

definition step :: "jsstring \<Rightarrow> nat \<Rightarrow> jsstring \<Rightarrow> parse_state \<Rightarrow> parse_state" where
  "step path i line st =
     (case match_phase line of
        Some (g1, g2) \<Rightarrow>
          \<lparr>phases = close_phase st,
           currentPhase = Some (TaskItem (g1 @ str '': '' @ g2) path phase None []),
           currentTasks = []\<rparr>
      | None \<Rightarrow>
          (case match_task line of
             Some taskMatch \<Rightarrow>
               (case currentPhase st of
                  Some p \<Rightarrow> st\<lparr>currentTasks := currentTasks st @ [make_task path i taskMatch]\<rparr>
                | None \<Rightarrow> st)
           | None \<Rightarrow> st))"

fun loop :: "jsstring \<Rightarrow> nat \<Rightarrow> jsstring list \<Rightarrow> parse_state \<Rightarrow> parse_state" where
  "loop path i [] st = st"
| "loop path i (line # lines) st = loop path (Suc i) lines (step path i line st)"

text \<open>
  The loop from line index \<open>i\<close> on fresh variables, and the closing of the last phase.
  \<open>parseTasksFile\<close> is the function of the source from the text of the file on; reading
  the file is the caller's side.
\<close>

definition parse_lines :: "jsstring \<Rightarrow> nat \<Rightarrow> jsstring list \<Rightarrow> TaskItem list" where
  "parse_lines path i lines = close_phase (loop path i lines init_state)"

definition parseTasksFile :: "jsstring \<Rightarrow> jsstring \<Rightarrow> TaskItem list" where
  "parseTasksFile path content = parse_lines path 0 (split_nl content)"

section \<open>Notions used to state the properties\<close>

text \<open>
  The task items that a run of lines gives when a phase is open, in line order, the first
  line having index \<open>i\<close>; the names of the phases that the header lines of a document
  open, in line order; and the order of two task items by source line.
\<close>

fun task_items :: "jsstring \<Rightarrow> nat \<Rightarrow> jsstring list \<Rightarrow> TaskItem list" where
  "task_items path i [] = []"
| "task_items path i (line # lines) =
     (case match_task line of
        Some taskMatch \<Rightarrow> make_task path i taskMatch # task_items path (Suc i) lines
      | None \<Rightarrow> task_items path (Suc i) lines)"

fun phase_names :: "jsstring list \<Rightarrow> jsstring list" where
  "phase_names [] = []"
| "phase_names (line # lines) =
     (case match_phase line of
        Some (g1, g2) \<Rightarrow> (g1 @ str '': '' @ g2) # phase_names lines
      | None \<Rightarrow> phase_names lines)"

definition line_before :: "TaskItem \<Rightarrow> TaskItem \<Rightarrow> bool" where
  "line_before s t =
     (case (taskData s, taskData t) of
        (Some d, Some e) \<Rightarrow> lineNumber d < lineNumber e
      | _ \<Rightarrow> False)"

text \<open>
  The tag \<open>[US<digits>]\<close> with the given digits.
\<close>

definition us_tag :: "jsstring \<Rightarrow> jsstring" where
  "us_tag ds = str ''[US'' @ ds @ str '']''"

text \<open>
  A bracket is open at a position of a text when a \<open>[\<close> before it has no \<open>]\<close> after
  it yet; \<open>next_open\<close> carries this over one code unit. \<open>no_tag_in_bracket opn s\<close>: no
  \<open>[P]\<close> and no \<open>[US<digits>]\<close> begins in \<open>s\<close> where a bracket is open, \<open>opn\<close> telling
  whether one is open at the start. \<open>no_P_no_open_us\<close> is what holds after the \<open>[P]\<close>
  pass (no \<open>[P]\<close> anywhere, no \<open>[US<digits>]\<close> where a bracket is open), \<open>tag_free\<close>
  what holds after both passes. \<open>upto_close\<close> is a text up to its first \<open>]\<close>.
\<close>

definition next_open :: "bool \<Rightarrow> cu \<Rightarrow> bool" where
  "next_open opn c = (if c = 0x5B then True else if c = 0x5D then False else opn)"

fun no_tag_in_bracket :: "bool \<Rightarrow> jsstring \<Rightarrow> bool" where
  "no_tag_in_bracket opn [] = True"
| "no_tag_in_bracket opn (c # cs) =
     ((opn \<longrightarrow> lit (str ''[P]'') (c # cs) = None \<and> match_us (c # cs) = None) \<and>
      no_tag_in_bracket (next_open opn c) cs)"

fun no_P_no_open_us :: "bool \<Rightarrow> jsstring \<Rightarrow> bool" where
  "no_P_no_open_us opn [] = True"
| "no_P_no_open_us opn (c # cs) =
     (lit (str ''[P]'') (c # cs) = None \<and> (opn \<longrightarrow> match_us (c # cs) = None) \<and>
      no_P_no_open_us (next_open opn c) cs)"

fun tag_free :: "jsstring \<Rightarrow> bool" where
  "tag_free [] = True"
| "tag_free (c # cs) =
     (lit (str ''[P]'') (c # cs) = None \<and> match_us (c # cs) = None \<and> tag_free cs)"

fun upto_close :: "jsstring \<Rightarrow> jsstring" where
  "upto_close [] = []"
| "upto_close (c # cs) = (if c = 0x5D then [c] else c # upto_close cs)"

section \<open>Facts about the matchers\<close>

lemma lit_iff: "lit p s = Some r \<longleftrightarrow> s = p @ r"
  by (induction p s rule: lit.induct) auto

lemma greedy_plus_iff:
  "(m, r) \<in> set (greedy_plus P s) \<longleftrightarrow> m \<noteq> [] \<and> s = m @ r \<and> list_all P m"
proof (induction s arbitrary: m)
  case Nil
  then show ?case by simp
next
  case (Cons c cs)
  show ?case
  proof (cases m)
    case Nil
    then show ?thesis by auto
  next
    case (Cons a m')
    then show ?thesis using Cons.IH [of m'] by (cases m') auto
  qed
qed

lemma first_match_Some: "first_match k xs = Some y \<Longrightarrow> \<exists>x\<in>set xs. k x = Some y"
  by (induction xs) (auto split: option.splits)

lemma first_match_None_iff: "first_match k xs = None \<longleftrightarrow> (\<forall>x\<in>set xs. k x = None)"
  by (induction xs) (auto split: option.splits)

lemma str_simps:
  "str [] = []" "str (c # s) = of_char c # str s"
  by (simp_all add: str_def)

lemma match_task_sound:
  assumes "match_task line = Some (m, tid, raw)"
  shows "\<exists>ds rest. line = str ''- ['' @ [m] @ str ''] '' @ tid @ raw @ rest \<and> tid = 0x54 # ds \<and>
           ds \<noteq> [] \<and> list_all is_digit ds \<and> raw \<noteq> [] \<and> list_all dot raw \<and>
           (m = 0x20 \<or> m = 0x78 \<or> m = 0x58)"
proof -
  from assms obtain r1 a r2 r3 r4 where
    1: "lit (str ''- ['') line = Some r1" and 2: "marker r1 = Some (a, r2)" and
    3: "lit (str ''] '') r2 = Some r3" and 4: "lit (str ''T'') r3 = Some r4" and
    5: "first_match (\<lambda>(ds, r5).
         first_match (\<lambda>(d, r6). Some (a, str ''T'' @ ds, d)) (greedy_plus dot r5))
       (greedy_plus is_digit r4) = Some (m, tid, raw)"
    by (auto simp: match_task_def split: Option.bind_splits)
  from first_match_Some [OF 5] obtain ds r5 where
    6: "(ds, r5) \<in> set (greedy_plus is_digit r4)" and
    7: "first_match (\<lambda>(d, r6). Some (a, str ''T'' @ ds, d)) (greedy_plus dot r5) = Some (m, tid, raw)"
    by auto
  from first_match_Some [OF 7] obtain r6 where
    8: "(raw, r6) \<in> set (greedy_plus dot r5)" and 9: "tid = str ''T'' @ ds" "a = m"
    by auto
  from 2 have 10: "r1 = a # r2" "a = 0x20 \<or> a = 0x78 \<or> a = 0x58"
    by (cases r1; auto split: if_splits)+
  from 1 3 4 6 8 9 10 show ?thesis
    by (auto simp: lit_iff greedy_plus_iff str_simps)
qed

lemma match_task_not_phase: "match_task line = Some tm \<Longrightarrow> match_phase line = None"
  by (auto simp: match_task_def match_phase_def lit_iff str_simps split: Option.bind_splits)


section \<open>Facts about the loop\<close>

lemma loop_append:
  "loop path i (xs @ ys) st = loop path (i + length xs) ys (loop path i xs st)"
  by (induction xs arbitrary: i st) auto

lemma step_header:
  "match_phase h = Some (g1, g2) \<Longrightarrow>
   step path i h st =
     \<lparr>phases = close_phase st,
      currentPhase = Some (TaskItem (g1 @ str '': '' @ g2) path phase None []),
      currentTasks = []\<rparr>"
  by (simp add: step_def)

lemma step_closed:
  "currentPhase st = None \<Longrightarrow> match_phase l = None \<Longrightarrow> step path i l st = st"
  by (simp add: step_def split: option.splits)

lemma step_open:
  "currentPhase st = Some p \<Longrightarrow> match_phase l = None \<Longrightarrow>
   step path i l st = st\<lparr>currentTasks := currentTasks st @ task_items path i [l]\<rparr>"
  by (simp add: step_def split: option.splits)

lemma task_items_append:
  "task_items path i (xs @ ys) = task_items path i xs @ task_items path (i + length xs) ys"
  by (induction xs arbitrary: i) (auto split: option.splits)

lemma loop_closed:
  "currentPhase st = None \<Longrightarrow> \<forall>l\<in>set ls. match_phase l = None \<Longrightarrow> loop path i ls st = st"
  by (induction ls arbitrary: i) (simp_all add: step_closed)

lemma loop_open:
  "currentPhase st = Some p \<Longrightarrow> \<forall>l\<in>set ls. match_phase l = None \<Longrightarrow>
   loop path i ls st = st\<lparr>currentTasks := currentTasks st @ task_items path i ls\<rparr>"
proof (induction ls arbitrary: i st)
  case Nil
  then show ?case by simp
next
  case (Cons l ls)
  have "step path i l st = st\<lparr>currentTasks := currentTasks st @ task_items path i [l]\<rparr>"
    using Cons.prems by (simp add: step_open)
  moreover have "task_items path i (l # ls) = task_items path i [l] @ task_items path (Suc i) ls"
    using task_items_append [of path i "[l]" ls] by simp
  ultimately show ?case
    using Cons.IH [of "step path i l st" "Suc i"] Cons.prems by simp
qed

lemma close_phase_prefix:
  "close_phase (st\<lparr>phases := P @ phases st\<rparr>) = P @ close_phase st"
  by (simp add: close_phase_def split: option.splits)

lemma step_prefix:
  "step path i l (st\<lparr>phases := P @ phases st\<rparr>) =
   (step path i l st)\<lparr>phases := P @ phases (step path i l st)\<rparr>"
  by (simp add: step_def close_phase_prefix split: option.splits)

lemma loop_prefix:
  "loop path i ls (st\<lparr>phases := P @ phases st\<rparr>) =
   (loop path i ls st)\<lparr>phases := P @ phases (loop path i ls st)\<rparr>"
  by (induction ls arbitrary: i st) (simp_all add: step_prefix)

lemma close_loop_header:
  assumes "match_phase h \<noteq> None"
  shows "close_phase (loop path i (h # ls) st) = close_phase st @ parse_lines path i (h # ls)"
proof -
  from assms obtain g1 g2 where h: "match_phase h = Some (g1, g2)" by auto
  let ?s = "step path i h init_state"
  have "step path i h st = ?s\<lparr>phases := close_phase st @ phases ?s\<rparr>"
    by (simp add: step_header [OF h] init_state_def close_phase_def)
  then have "loop path i (h # ls) st =
      (loop path (Suc i) ls ?s)\<lparr>phases := close_phase st @ phases (loop path (Suc i) ls ?s)\<rparr>"
    by (simp add: loop_prefix)
  then show ?thesis
    by (simp add: close_phase_prefix parse_lines_def)
qed

lemma parse_lines_Nil: "parse_lines path i [] = []"
  by (simp add: parse_lines_def init_state_def close_phase_def)

lemma parse_lines_append:
  assumes "ys = [] \<or> match_phase (hd ys) \<noteq> None"
  shows "parse_lines path i (xs @ ys) =
         parse_lines path i xs @ parse_lines path (i + length xs) ys"
proof (cases ys)
  case Nil
  then show ?thesis by (simp add: parse_lines_Nil)
next
  case (Cons h ys')
  with assms have "match_phase h \<noteq> None" by simp
  have "parse_lines path i (xs @ ys) =
        close_phase (loop path (i + length xs) (h # ys') (loop path i xs init_state))"
    by (simp only: parse_lines_def loop_append Cons)
  also have "\<dots> = close_phase (loop path i xs init_state) @
        parse_lines path (i + length xs) (h # ys')"
    by (rule close_loop_header) fact
  finally show ?thesis
    by (simp only: parse_lines_def Cons)
qed

lemma parse_lines_no_header:
  "\<forall>l\<in>set ls. match_phase l = None \<Longrightarrow> parse_lines path i ls = []"
  by (simp add: parse_lines_def loop_closed init_state_def close_phase_def)

lemma parse_lines_skip:
  "\<forall>l\<in>set pre. match_phase l = None \<Longrightarrow>
   parse_lines path i (pre @ rest) = parse_lines path (i + length pre) rest"
  by (simp add: parse_lines_def loop_append loop_closed init_state_def)

lemma parse_lines_one_phase:
  assumes "match_phase h = Some (g1, g2)" and "\<forall>l\<in>set body. match_phase l = None"
  shows "parse_lines path i (h # body) =
         [TaskItem (g1 @ str '': '' @ g2) path phase None (task_items path (Suc i) body)]"
  using assms
  by (simp add: parse_lines_def step_header loop_open close_phase_def init_state_def)

lemma parse_lines_decomp:
  assumes "match_phase h = Some (g1, g2)" and "\<forall>l\<in>set body. match_phase l = None"
    and "rest = [] \<or> match_phase (hd rest) \<noteq> None"
  shows "parse_lines path i (pre @ h # body @ rest) =
         parse_lines path i pre @
         TaskItem (g1 @ str '': '' @ g2) path phase None
           (task_items path (Suc (i + length pre)) body) #
         parse_lines path (Suc (i + length pre + length body)) rest"
proof -
  have "parse_lines path i (pre @ (h # body @ rest)) =
        parse_lines path i pre @ parse_lines path (i + length pre) (h # body @ rest)"
    using assms(1) by (intro parse_lines_append) simp
  moreover have "parse_lines path (i + length pre) ((h # body) @ rest) =
        parse_lines path (i + length pre) (h # body) @
        parse_lines path (i + length pre + length (h # body)) rest"
    using assms(3) by (intro parse_lines_append)
  ultimately show ?thesis
    using parse_lines_one_phase [OF assms(1,2)] by simp
qed

lemma match_phase_not_task: "match_phase line = Some pm \<Longrightarrow> match_task line = None"
  using match_task_not_phase [of line] by (cases "match_task line") auto

lemma tasks_set_tasks [simp]: "tasks (set_tasks p ts) = ts"
  by (cases p) simp

lemma label_set_tasks [simp]: "label (set_tasks p ts) = label p"
  by (cases p) simp

lemma taskData_make_task:
  "\<exists>d. taskData (make_task path i tm) = Some d \<and> lineNumber d = i"
  by (cases tm) (simp add: make_task_def Let_def)

lemma task_items_lines:
  "t \<in> set (task_items path i ls) \<Longrightarrow>
   \<exists>d. taskData t = Some d \<and> i \<le> lineNumber d \<and> lineNumber d < i + length ls"
proof (induction ls arbitrary: i)
  case Nil
  then show ?case by simp
next
  case (Cons l ls)
  show ?case
  proof (cases "t \<in> set (task_items path (Suc i) ls)")
    case True
    from Cons.IH [OF this] show ?thesis by auto
  next
    case False
    with Cons.prems obtain tm where "t = make_task path i tm"
      by (auto split: option.splits)
    with taskData_make_task [of path i tm] show ?thesis by auto
  qed
qed

lemma sorted_task_items: "sorted_wrt line_before (task_items path i ls)"
proof (induction ls arbitrary: i)
  case Nil
  then show ?case by simp
next
  case (Cons l ls)
  have "line_before (make_task path i tm) t" if "t \<in> set (task_items path (Suc i) ls)" for tm t
    using task_items_lines [OF that] taskData_make_task [of path i tm]
    by (auto simp: line_before_def)
  with Cons.IH [of "Suc i"] show ?case
    by (auto split: option.splits)
qed

lemma task_items_no_task:
  "\<forall>l\<in>set ls. match_task l = None \<Longrightarrow> task_items path i ls = []"
  by (induction ls arbitrary: i) auto

lemma tasks_loop_open:
  "currentPhase st = Some p \<Longrightarrow>
   concat (map tasks (close_phase (loop path i ls st))) =
   concat (map tasks (phases st)) @ currentTasks st @ task_items path i ls"
proof (induction ls arbitrary: i st p)
  case Nil
  then show ?case by (simp add: close_phase_def)
next
  case (Cons l ls)
  show ?case
  proof (cases "match_phase l")
    case None
    let ?st = "step path i l st"
    have st: "?st = st\<lparr>currentTasks := currentTasks st @ task_items path i [l]\<rparr>"
      using Cons.prems None by (rule step_open)
    then have "currentPhase ?st = Some p" using Cons.prems by simp
    from Cons.IH [OF this, of "Suc i"] st
    show ?thesis
      using task_items_append [of path i "[l]" ls] by simp
  next
    case (Some pm)
    obtain g1 g2 where pm: "pm = (g1, g2)" by (cases pm)
    let ?st = "step path i l st"
    have st: "?st = \<lparr>phases = close_phase st,
        currentPhase = Some (TaskItem (g1 @ str '': '' @ g2) path phase None []),
        currentTasks = []\<rparr>"
      using Some pm by (simp add: step_header)
    then have "currentPhase ?st = Some (TaskItem (g1 @ str '': '' @ g2) path phase None [])"
      by simp
    from Cons.IH [OF this, of "Suc i"] st Cons.prems match_phase_not_task [OF Some]
    show ?thesis
      by (simp add: close_phase_def)
  qed
qed

lemma tasks_parse_lines:
  "\<exists>k \<le> length ls. concat (map tasks (parse_lines path i ls)) = task_items path (i + k) (drop k ls)"
proof (cases "\<forall>l\<in>set ls. match_phase l = None")
  case True
  then show ?thesis
    by (intro exI [of _ "length ls"]) (simp add: parse_lines_no_header)
next
  case False
  define pre where "pre = takeWhile (\<lambda>l. match_phase l = None) ls"
  define rest where "rest = dropWhile (\<lambda>l. match_phase l = None) ls"
  have ls: "ls = pre @ rest" by (simp add: pre_def rest_def)
  have pre: "\<forall>l\<in>set pre. match_phase l = None"
    unfolding pre_def by (auto dest: set_takeWhileD)
  from False have "rest \<noteq> []" by (auto simp: rest_def)
  then obtain h rest' where rest: "rest = h # rest'" by (cases rest) auto
  have "match_phase h \<noteq> None"
    using hd_dropWhile [of "\<lambda>l. match_phase l = None" ls] \<open>rest \<noteq> []\<close> rest
    by (simp add: rest_def)
  then obtain g1 g2 where h: "match_phase h = Some (g1, g2)" by auto
  let ?j = "i + length pre"
  have "parse_lines path i ls = parse_lines path ?j (h # rest')"
    using parse_lines_skip [OF pre] by (simp add: ls rest)
  moreover have "concat (map tasks (parse_lines path ?j (h # rest'))) =
      task_items path (Suc ?j) rest'"
    using tasks_loop_open [of "step path ?j h init_state" _ path "Suc ?j" rest']
    by (simp add: parse_lines_def step_header [OF h] init_state_def close_phase_def)
  moreover have "task_items path ?j (h # rest') = task_items path (Suc ?j) rest'"
    using match_phase_not_task [OF h] by simp
  ultimately have "concat (map tasks (parse_lines path i ls)) =
      task_items path (i + length pre) (drop (length pre) ls)"
    by (simp add: ls rest)
  moreover have "length pre \<le> length ls" by (simp add: ls)
  ultimately show ?thesis by blast
qed

lemma labels_loop:
  "map label (close_phase (loop path i ls st)) = map label (close_phase st) @ phase_names ls"
proof (induction ls arbitrary: i st)
  case Nil
  then show ?case by simp
next
  case (Cons l ls)
  show ?case
  proof (cases "match_phase l")
    case None
    have "map label (close_phase (step path i l st)) = map label (close_phase st)"
      using None by (simp add: step_def close_phase_def split: option.splits)
    with Cons.IH [of "Suc i" "step path i l st"] None show ?thesis by simp
  next
    case (Some pm)
    obtain g1 g2 where pm: "pm = (g1, g2)" by (cases pm)
    have "map label (close_phase (step path i l st)) =
        map label (close_phase st) @ [g1 @ str '': '' @ g2]"
      using Some pm by (simp add: step_header close_phase_def)
    with Cons.IH [of "Suc i" "step path i l st"] Some pm show ?thesis by simp
  qed
qed

lemma labels_parse_lines: "map label (parse_lines path i ls) = phase_names ls"
  using labels_loop [of path i ls init_state]
  by (simp add: parse_lines_def init_state_def close_phase_def)

lemma length_phase_names:
  "length (phase_names ls) = length (filter (\<lambda>l. match_phase l \<noteq> None) ls)"
  by (induction ls) (auto split: option.splits)

section \<open>Facts about a task line\<close>

lemma step_task:
  "currentPhase st = Some ph \<Longrightarrow> match_task line = Some tm \<Longrightarrow>
   step path i line st = st\<lparr>currentTasks := currentTasks st @ [make_task path i tm]\<rparr>"
  by (simp add: step_def match_task_not_phase)

lemma description_make_task:
  "map_option description (taskData (make_task path i (m, tid, raw))) =
   Some (truncate_desc (clean (trim raw)))"
  by (simp add: make_task_def Let_def)

lemma isCompleted_make_task:
  "m = 0x20 \<or> m = 0x78 \<or> m = 0x58 \<Longrightarrow>
   map_option isCompleted (taskData (make_task path i (m, tid, raw))) = Some (m = 0x78 \<or> m = 0x58)"
  by (auto simp: make_task_def Let_def toLowerCase_def str_simps)

lemma taskId_make_task:
  "map_option taskId (taskData (make_task path i (m, tid, raw))) = Some tid"
  by (simp add: make_task_def Let_def)

section \<open>Facts about the tags\<close>

lemma greedy_plus_longest:
  "list_all P ds \<Longrightarrow> ds \<noteq> [] \<Longrightarrow> \<not> P c \<Longrightarrow>
   \<exists>more. greedy_plus P (ds @ c # r) = (ds, c # r) # more"
proof (induction ds)
  case Nil
  then show ?case by simp
next
  case (Cons d ds)
  show ?case
  proof (cases ds)
    case Nil
    with Cons.prems show ?thesis by simp
  next
    case (Cons d' ds')
    with Cons.IH Cons.prems obtain more where
      "greedy_plus P (ds @ c # r) = (ds, c # r) # more" by auto
    with Cons.prems show ?thesis by simp
  qed
qed

lemma not_digit_bracket: "\<not> is_digit 0x5D" "\<not> is_digit 0x5B"
  by (simp_all add: is_digit_def)

lemma match_us_iff:
  "match_us s = Some (t, r) \<longleftrightarrow>
   (\<exists>ds. ds \<noteq> [] \<and> list_all is_digit ds \<and> t = us_tag ds \<and> s = t @ r)"
proof
  assume a: "match_us s = Some (t, r)"
  then obtain r1 where 1: "lit (str ''[US'') s = Some r1"
    and 2: "first_match (\<lambda>(ds, r2). do {
         r3 \<leftarrow> lit (str '']'') r2;
         Some (str ''[US'' @ ds @ str '']'', r3)
       }) (greedy_plus is_digit r1) = Some (t, r)"
    by (auto simp: match_us_def split: Option.bind_splits)
  from first_match_Some [OF 2] obtain ds r2 where 3: "(ds, r2) \<in> set (greedy_plus is_digit r1)"
    and 4: "lit (str '']'') r2 = Some r" and 5: "t = str ''[US'' @ ds @ str '']''"
    by (auto split: Option.bind_splits)
  from 1 3 4 5 show "\<exists>ds. ds \<noteq> [] \<and> list_all is_digit ds \<and> t = us_tag ds \<and> s = t @ r"
    by (auto simp: lit_iff greedy_plus_iff us_tag_def)
next
  assume "\<exists>ds. ds \<noteq> [] \<and> list_all is_digit ds \<and> t = us_tag ds \<and> s = t @ r"
  then obtain ds where ds: "ds \<noteq> []" "list_all is_digit ds" and t: "t = us_tag ds"
    and s: "s = t @ r" by blast
  have 1: "lit (str ''[US'') s = Some (ds @ 0x5D # r)"
    by (simp add: lit_iff s t us_tag_def str_simps)
  from greedy_plus_longest [OF ds(2,1) not_digit_bracket(1), of r] obtain more where
    2: "greedy_plus is_digit (ds @ 0x5D # r) = (ds, 0x5D # r) # more" by blast
  have 3: "lit (str '']'') (0x5D # r) = Some r"
    by (simp add: str_simps)
  show "match_us s = Some (t, r)"
    by (simp add: match_us_def 1 2 3 t us_tag_def)
qed

lemma match_us_Nil [simp]: "match_us [] = None"
  by (simp add: match_us_def str_simps)

lemma match_us_bracket: "match_us (c # cs) = Some tr \<Longrightarrow> c = 0x5B"
  by (cases tr) (auto simp: match_us_iff us_tag_def str_simps)

lemma search_us_None: "search_us s = None \<Longrightarrow> s = pre @ u \<Longrightarrow> match_us u = None"
proof (induction s arbitrary: pre)
  case Nil
  then show ?case by simp
next
  case (Cons c cs)
  from Cons.prems(1) have here: "match_us (c # cs) = None" and later: "search_us cs = None"
    by (auto split: option.splits)
  show ?case
  proof (cases pre)
    case Nil
    with Cons.prems here show ?thesis by simp
  next
    case (Cons p pre')
    with Cons.prems have "cs = pre' @ u" by simp
    from Cons.IH [OF later this] show ?thesis .
  qed
qed

lemma search_us_Some:
  "search_us s = Some t \<Longrightarrow>
   \<exists>pre r. s = pre @ t @ r \<and> match_us (t @ r) = Some (t, r) \<and>
     (\<forall>pre' u. s = pre' @ u \<longrightarrow> length pre' < length pre \<longrightarrow> match_us u = None)"
proof (induction s)
  case Nil
  then show ?case by simp
next
  case (Cons c cs)
  show ?case
  proof (cases "match_us (c # cs)")
    case None
    with Cons.prems have "search_us cs = Some t" by simp
    from Cons.IH [OF this] obtain pre r where cs: "cs = pre @ t @ r"
      and m: "match_us (t @ r) = Some (t, r)"
      and first: "\<And>pre' u. cs = pre' @ u \<Longrightarrow> length pre' < length pre \<Longrightarrow> match_us u = None"
      by blast
    have "match_us u = None" if "c # cs = pre' @ u" "length pre' < length (c # pre)" for pre' u
    proof (cases pre')
      case Nil
      with that None show ?thesis by simp
    next
      case (Cons p q)
      with that first [of q u] show ?thesis by simp
    qed
    with cs m show ?thesis
      by (intro exI [of _ "c # pre"] exI [of _ r]) simp
  next
    case (Some tr)
    obtain t' r where tr: "tr = (t', r)" by (cases tr)
    with Some Cons.prems have t: "t' = t" by simp
    from Some tr t have m: "match_us (c # cs) = Some (t, r)" by simp
    then have "c # cs = t @ r" by (auto simp: match_us_iff)
    with m show ?thesis
      by (intro exI [of _ "[]"] exI [of _ r]) simp
  qed
qed


lemma digits_no_bracket: "list_all is_digit ds \<Longrightarrow> 0x5B \<notin> set ds"
  using not_digit_bracket(2) by (auto simp: list_all_iff)

lemma story_make_task:
  "map_option story (taskData (make_task path i (m, tid, raw))) =
   Some (case search_us (trim raw) of Some t \<Rightarrow> t | None \<Rightarrow> [])"
  by (simp add: make_task_def Let_def)

lemma us_tag_occurs:
  "ds \<noteq> [] \<Longrightarrow> list_all is_digit ds \<Longrightarrow>
   match_us (us_tag ds @ post) = Some (us_tag ds, post)"
  by (auto simp: match_us_iff)

lemma upto_close_prefix: "\<exists>r. xs = upto_close xs @ r"
  by (induction xs) auto

lemma upto_close_closed: "0x5D \<notin> set w \<Longrightarrow> upto_close (w @ 0x5D # r) = w @ [0x5D]"
  by (induction w) auto

lemma P_depends:
  assumes "upto_close xs = upto_close ys" and "lit (str ''[P]'') (c # xs) = None"
  shows "lit (str ''[P]'') (c # ys) = None"
proof (rule ccontr)
  assume "lit (str ''[P]'') (c # ys) \<noteq> None"
  then obtain r where "c # ys = str ''[P]'' @ r" by (auto simp: lit_iff)
  then have c: "c = 0x5B" and ys: "ys = [0x50] @ 0x5D # r" by (simp_all add: str_simps)
  have "upto_close ys = [0x50, 0x5D]"
    unfolding ys by (subst upto_close_closed) simp_all
  with assms(1) upto_close_prefix [of xs] obtain r' where "xs = [0x50, 0x5D] @ r'" by metis
  with c have "lit (str ''[P]'') (c # xs) = Some r'" by (simp add: lit_iff str_simps)
  with assms(2) show False by simp
qed

lemma digits_no_close: "list_all is_digit ds \<Longrightarrow> 0x5D \<notin> set ds"
  using not_digit_bracket(1) by (auto simp: list_all_iff)

lemma us_depends:
  assumes "upto_close xs = upto_close ys" and "match_us (c # xs) = None"
  shows "match_us (c # ys) = None"
proof (rule ccontr)
  assume "match_us (c # ys) \<noteq> None"
  then obtain t r where "match_us (c # ys) = Some (t, r)" by auto
  then obtain ds where ds: "ds \<noteq> []" "list_all is_digit ds" and "c # ys = us_tag ds @ r"
    by (auto simp: match_us_iff)
  then have c: "c = 0x5B" and ys: "ys = (str ''US'' @ ds) @ 0x5D # r"
    by (simp_all add: us_tag_def str_simps)
  have "0x5D \<notin> set (str ''US'' @ ds)"
    using digits_no_close [OF ds(2)] by (simp add: str_simps)
  then have "upto_close ys = (str ''US'' @ ds) @ [0x5D]"
    unfolding ys by (rule upto_close_closed)
  with assms(1) upto_close_prefix [of xs] obtain r' where
    "xs = ((str ''US'' @ ds) @ [0x5D]) @ r'" by metis
  with c have "c # xs = us_tag ds @ r'" by (simp add: us_tag_def str_simps)
  with ds have "match_us (c # xs) = Some (us_tag ds, r')" by (auto simp: match_us_iff)
  with assms(2) show False by simp
qed

lemma next_open_True: "c \<noteq> 0x5D \<Longrightarrow> next_open True c = True"
  by (simp add: next_open_def)

lemma replace_P_open:
  "no_tag_in_bracket True s \<Longrightarrow> upto_close (replace_P s) = upto_close s"
  by (induction s) (auto simp: next_open_True)

lemma replace_us_open:
  "no_P_no_open_us True t \<Longrightarrow> upto_close (replace_us t) = upto_close t"
  by (induction t) (auto simp: next_open_True)

lemma no_tag_in_bracket_append:
  "no_tag_in_bracket opn (w @ r) \<Longrightarrow> no_tag_in_bracket (foldl next_open opn w) r"
  by (induction w arbitrary: opn) auto

lemma no_P_no_open_us_append:
  "no_P_no_open_us opn (w @ r) \<Longrightarrow> no_P_no_open_us (foldl next_open opn w) r"
  by (induction w arbitrary: opn) auto

lemma foldl_next_open_close: "foldl next_open opn (w @ [0x5D]) = False"
  by (simp add: next_open_def)


lemma not_bracket_no_tag:
  "c \<noteq> 0x5B \<Longrightarrow> lit (str ''[P]'') (c # xs) = None"
  "c \<noteq> 0x5B \<Longrightarrow> match_us (c # xs) = None"
proof -
  show "c \<noteq> 0x5B \<Longrightarrow> lit (str ''[P]'') (c # xs) = None"
    by (simp add: str_simps)
  show "c \<noteq> 0x5B \<Longrightarrow> match_us (c # xs) = None"
    by (cases "match_us (c # xs)") (auto dest: match_us_bracket)
qed

lemma next_open_bracket: "next_open opn 0x5B = True"
  by (simp add: next_open_def)

lemma replace_P_guarded:
  "no_tag_in_bracket opn s \<Longrightarrow> no_P_no_open_us opn (replace_P s)"
proof (induction s arbitrary: opn rule: replace_P.induct)
  case 1
  then show ?case by simp
next
  case (2 c cs)
  show ?case
  proof (cases "lit (str ''[P]'') (c # cs)")
    case (Some r)
    then have "c # cs = str ''[P]'' @ r" by (simp only: lit_iff)
    then have s: "c # cs = (str ''[P'' @ [0x5D]) @ r" by (simp add: str_simps)
    from "2.prems" Some have "\<not> opn" by auto
    from no_tag_in_bracket_append [OF "2.prems" [unfolded s]]
    have "no_tag_in_bracket False r" by (simp only: foldl_next_open_close)
    from "2.IH"(2) [OF Some this] Some \<open>\<not> opn\<close> show ?thesis by simp
  next
    case None
    from "2.prems" have tail: "no_tag_in_bracket (next_open opn c) cs" by simp
    from "2.IH"(1) [OF None tail] have ih: "no_P_no_open_us (next_open opn c) (replace_P cs)" .
    have same: "upto_close (replace_P cs) = upto_close cs" if "c = 0x5B"
      using tail that by (simp add: next_open_bracket replace_P_open)
    have 1: "lit (str ''[P]'') (c # replace_P cs) = None"
    proof (cases "c = 0x5B")
      case True
      from P_depends [OF same [OF True, symmetric] None] show ?thesis .
    next
      case False
      then show ?thesis by (rule not_bracket_no_tag)
    qed
    have 2: "match_us (c # replace_P cs) = None" if opn
    proof (cases "c = 0x5B")
      case True
      from "2.prems" that have "match_us (c # cs) = None" by simp
      from us_depends [OF same [OF True, symmetric] this] show ?thesis .
    next
      case False
      then show ?thesis by (rule not_bracket_no_tag)
    qed
    from 1 2 ih None show ?thesis by simp
  qed
qed

lemma replace_us_guarded:
  "no_P_no_open_us opn t \<Longrightarrow> tag_free (replace_us t)"
proof (induction t arbitrary: opn rule: replace_us.induct)
  case 1
  then show ?case by simp
next
  case (2 c cs)
  show ?case
  proof (cases "match_us (c # cs)")
    case (Some tr)
    obtain t r where tr: "tr = (t, r)" by (cases tr)
    with Some obtain ds where "c # cs = (str ''[US'' @ ds @ [0x5D]) @ r"
      by (auto simp: match_us_iff us_tag_def str_simps)
    from no_P_no_open_us_append [OF "2.prems" [unfolded this]]
    have "no_P_no_open_us False r"
      using foldl_next_open_close [of opn "str ''[US'' @ ds"] by simp
    from "2.IH"(2) [OF Some tr [symmetric] this] Some tr show ?thesis by simp
  next
    case None
    from "2.prems" have tail: "no_P_no_open_us (next_open opn c) cs"
      and noP: "lit (str ''[P]'') (c # cs) = None" by simp_all
    from "2.IH"(1) [OF None tail] have ih: "tag_free (replace_us cs)" .
    have same: "upto_close (replace_us cs) = upto_close cs" if "c = 0x5B"
      using tail that by (simp add: next_open_bracket replace_us_open)
    have 1: "lit (str ''[P]'') (c # replace_us cs) = None"
    proof (cases "c = 0x5B")
      case True
      from P_depends [OF same [OF True, symmetric] noP] show ?thesis .
    next
      case False
      then show ?thesis by (rule not_bracket_no_tag)
    qed
    have 2: "match_us (c # replace_us cs) = None"
    proof (cases "c = 0x5B")
      case True
      from us_depends [OF same [OF True, symmetric] None] show ?thesis .
    next
      case False
      then show ?thesis by (rule not_bracket_no_tag)
    qed
    from 1 2 ih None show ?thesis by simp
  qed
qed

lemma tag_free_suffix: "tag_free (w @ r) \<Longrightarrow> tag_free r"
  by (induction w) auto

lemma tag_free_no_P: "tag_free u \<Longrightarrow> u \<noteq> pre @ str ''[P]'' @ post"
proof
  assume "tag_free u" and "u = pre @ str ''[P]'' @ post"
  then have "tag_free (str ''[P]'' @ post)" using tag_free_suffix [of pre] by simp
  then show False by (simp add: str_simps)
qed

lemma tag_free_no_us:
  assumes "tag_free u" and "ds \<noteq> []" and "list_all is_digit ds"
  shows "u \<noteq> pre @ us_tag ds @ post"
proof
  assume "u = pre @ us_tag ds @ post"
  with assms(1) have "tag_free (us_tag ds @ post)" using tag_free_suffix [of pre] by simp
  moreover have "us_tag ds @ post = 0x5B # (str ''US'' @ ds @ str '']'' @ post)"
    by (simp add: us_tag_def str_simps)
  ultimately have "match_us (us_tag ds @ post) = None" by simp
  with us_tag_occurs [OF assms(2,3), of post] show False by simp
qed

lemma no_occurrence_inside:
  assumes "\<And>pre post. u \<noteq> pre @ tg @ post" and "u = a @ v @ b"
  shows "v \<noteq> pre @ tg @ post"
proof
  assume "v = pre @ tg @ post"
  with assms(2) have "u = (a @ pre) @ tg @ (post @ b)" by simp
  with assms(1) show False by blast
qed

lemma trim_inside: "\<exists>a b. s = a @ trim s @ b"
proof -
  let ?x = "dropWhile is_white_space s"
  have "trim s @ rev (takeWhile is_white_space (rev ?x)) =
      rev (takeWhile is_white_space (rev ?x) @ dropWhile is_white_space (rev ?x))"
    by (simp only: trim_def rev_append)
  also have "\<dots> = rev (rev ?x)" by (simp only: takeWhile_dropWhile_id)
  also have "\<dots> = ?x" by simp
  finally have "?x = trim s @ rev (takeWhile is_white_space (rev ?x))" by simp
  moreover have "s = takeWhile is_white_space s @ ?x" by simp
  ultimately have "s = takeWhile is_white_space s @ trim s @
      rev (takeWhile is_white_space (rev ?x))"
    by simp
  then show ?thesis by blast
qed

lemma truncate_no_occurrence:
  assumes "\<And>pre post. c \<noteq> pre @ (w @ [0x5D]) @ post"
  shows "truncate_desc c \<noteq> pre @ (w @ [0x5D]) @ post"
proof (cases "80 < length c")
  case False
  with assms show ?thesis by (simp add: truncate_desc_def)
next
  case True
  show ?thesis
  proof
    assume "truncate_desc c = pre @ (w @ [0x5D]) @ post"
    with True have "take 77 c @ str ''...'' = (pre @ w @ [0x5D]) @ post"
      by (simp add: truncate_desc_def)
    then obtain us where
      "take 77 c = (pre @ w @ [0x5D]) @ us \<and> us @ str ''...'' = post \<or>
       take 77 c @ us = pre @ w @ [0x5D] \<and> str ''...'' = us @ post"
      unfolding append_eq_append_conv2 by blast
    then consider "take 77 c = (pre @ w @ [0x5D]) @ us"
      | "take 77 c @ us = pre @ w @ [0x5D]" "str ''...'' = us @ post" "us \<noteq> []"
      by (cases "us = []") auto
    then show False
    proof cases
      case 1
      have "c = take 77 c @ drop 77 c" by simp
      with 1 have "c = pre @ (w @ [0x5D]) @ (us @ drop 77 c)" by simp
      with assms show False by blast
    next
      case 2
      from 2(1,3) have "last us = 0x5D"
        by (metis last_appendR last_snoc append_assoc)
      moreover from 2(2,3) have "last us \<in> set (str ''...'')"
        by (metis last_in_set in_set_conv_decomp Un_iff set_append)
      ultimately show False by (simp add: str_simps)
    qed
  qed
qed


lemma split_before:
  "x \<notin> set w \<Longrightarrow> a @ x # b = w @ r \<Longrightarrow> \<exists>r'. a = w @ r'"
proof (induction w arbitrary: a)
  case Nil
  then show ?case by simp
next
  case (Cons y w)
  then show ?case by (cases a) auto
qed

lemma no_P_extend:
  assumes "lit (str ''[P]'') (c # cs) = None"
  shows "lit (str ''[P]'') (c # cs @ 0x5B # rest) = None"
proof (rule ccontr)
  assume "lit (str ''[P]'') (c # cs @ 0x5B # rest) \<noteq> None"
  then obtain r where "c # cs @ 0x5B # rest = str ''[P]'' @ r" by (auto simp only: lit_iff)
  then have c: "c = 0x5B" and "cs @ 0x5B # rest = [0x50, 0x5D] @ r" by (simp_all add: str_simps)
  from split_before [OF _ this(2)] obtain r' where "cs = [0x50, 0x5D] @ r'" by auto
  with c have "lit (str ''[P]'') (c # cs) = Some r'" by (simp add: str_simps)
  with assms show False by simp
qed

lemma no_us_extend:
  assumes "match_us (c # cs) = None"
  shows "match_us (c # cs @ 0x5B # rest) = None"
proof (rule ccontr)
  assume "match_us (c # cs @ 0x5B # rest) \<noteq> None"
  then obtain t r where "match_us (c # cs @ 0x5B # rest) = Some (t, r)" by auto
  then obtain ds where ds: "ds \<noteq> []" "list_all is_digit ds"
    and "c # cs @ 0x5B # rest = us_tag ds @ r"
    by (auto simp: match_us_iff)
  then have c: "c = 0x5B" and eq: "cs @ 0x5B # rest = (str ''US'' @ ds @ str '']'') @ r"
    by (simp_all add: us_tag_def str_simps)
  have "0x5B \<notin> set (str ''US'' @ ds @ str '']'')"
    using digits_no_bracket [OF ds(2)] by (simp add: str_simps)
  from split_before [OF this eq] obtain r' where "cs = (str ''US'' @ ds @ str '']'') @ r'"
    by blast
  with c have "c # cs = us_tag ds @ r'" by (simp add: us_tag_def str_simps)
  with ds have "match_us (c # cs) = Some (us_tag ds, r')" by (auto simp: match_us_iff)
  with assms show False by simp
qed

lemma replace_P_occurrence:
  "replace_P (pre @ str ''[P]'' @ post) = replace_P pre @ replace_P post"
proof (induction pre rule: replace_P.induct)
  case 1
  have "lit (str ''[P]'') (0x5B # 0x50 # 0x5D # post) = Some post"
    by (simp add: str_simps)
  then have "replace_P (0x5B # 0x50 # 0x5D # post) = replace_P post" by simp
  then show ?case by (simp add: str_simps)
next
  case (2 c cs)
  let ?rest = "str ''[P]'' @ post"
  have rest: "?rest = 0x5B # str ''P]'' @ post" by (simp add: str_simps)
  show ?case
  proof (cases "lit (str ''[P]'') (c # cs)")
    case (Some r)
    then have "c # cs = str ''[P]'' @ r" by (simp only: lit_iff)
    then have "lit (str ''[P]'') (c # cs @ ?rest) = Some (r @ ?rest)"
      by (simp only: lit_iff) simp
    with "2.IH"(2) [OF Some] Some show ?thesis by simp
  next
    case None
    from no_P_extend [OF None] have "lit (str ''[P]'') (c # cs @ ?rest) = None"
      unfolding rest .
    with "2.IH"(1) [OF None] None show ?thesis by simp
  qed
qed

lemma replace_P_none:
  "(\<And>pre post. s \<noteq> pre @ str ''[P]'' @ post) \<Longrightarrow> replace_P s = s"
proof (induction s)
  case Nil
  then show ?case by simp
next
  case (Cons c cs)
  have "lit (str ''[P]'') (c # cs) = None"
  proof (cases "lit (str ''[P]'') (c # cs)")
    case (Some r)
    then have "c # cs = [] @ str ''[P]'' @ r" by (simp only: lit_iff) simp
    with Cons.prems show ?thesis by blast
  qed
  moreover have "cs \<noteq> pre @ str ''[P]'' @ post" for pre post
    using Cons.prems [of "c # pre" post] by simp
  ultimately show ?case using Cons.IH by simp
qed

lemma replace_us_occurrence:
  assumes "ds \<noteq> []" and "list_all is_digit ds"
  shows "replace_us (pre @ us_tag ds @ post) = replace_us pre @ replace_us post"
proof (induction pre rule: replace_us.induct)
  case 1
  have h: "us_tag ds @ post = 0x5B # str ''US'' @ ds @ str '']'' @ post"
    by (simp add: us_tag_def str_simps)
  from us_tag_occurs [OF assms, of post]
  have "replace_us (0x5B # str ''US'' @ ds @ str '']'' @ post) = replace_us post"
    unfolding h by simp
  then show ?case by (simp add: h)
next
  case (2 c cs)
  let ?rest = "us_tag ds @ post"
  have rest: "?rest = 0x5B # str ''US'' @ ds @ str '']'' @ post"
    by (simp add: us_tag_def str_simps)
  show ?case
  proof (cases "match_us (c # cs)")
    case (Some tr)
    obtain t r where tr: "tr = (t, r)" by (cases tr)
    with Some have "match_us (c # cs @ ?rest) = Some (t, r @ ?rest)"
      by (auto simp: match_us_iff)
    with "2.IH"(2) [OF Some tr [symmetric]] Some tr show ?thesis by simp
  next
    case None
    from no_us_extend [OF None] have "match_us (c # cs @ ?rest) = None"
      unfolding rest .
    with "2.IH"(1) [OF None] None show ?thesis by simp
  qed
qed

lemma replace_us_none:
  "(\<And>pre ds post. ds \<noteq> [] \<Longrightarrow> list_all is_digit ds \<Longrightarrow> s \<noteq> pre @ us_tag ds @ post) \<Longrightarrow>
   replace_us s = s"
proof (induction s)
  case Nil
  then show ?case by simp
next
  case (Cons c cs)
  have "match_us (c # cs) = None"
  proof (cases "match_us (c # cs)")
    case (Some tr)
    obtain t r where "tr = (t, r)" by (cases tr)
    with Some obtain ds where "ds \<noteq> []" "list_all is_digit ds" "c # cs = [] @ us_tag ds @ r"
      by (auto simp: match_us_iff)
    with Cons.prems show ?thesis by blast
  qed
  moreover have "cs \<noteq> pre @ us_tag ds @ post" if "ds \<noteq> []" "list_all is_digit ds"
    for pre ds post
    using Cons.prems [OF that, of "c # pre" post] by simp
  ultimately show ?case using Cons.IH by simp
qed

lemma description_no_tag:
  assumes "no_tag_in_bracket False s"
  shows "truncate_desc (clean s) \<noteq> pre @ str ''[P]'' @ post"
    and "ds \<noteq> [] \<Longrightarrow> list_all is_digit ds \<Longrightarrow> truncate_desc (clean s) \<noteq> pre @ us_tag ds @ post"
proof -
  let ?u = "replace_us (replace_P s)"
  from assms have free: "tag_free ?u"
    by (intro replace_us_guarded replace_P_guarded)
  obtain a b where u: "?u = a @ clean s @ b"
    using trim_inside [of ?u] by (auto simp: clean_def)
  have "clean s \<noteq> pre @ ([0x5B, 0x50] @ [0x5D]) @ post" for pre post
    using no_occurrence_inside [OF _ u, of "str ''[P]''" pre post] tag_free_no_P [OF free]
    by (simp add: str_simps)
  from truncate_no_occurrence [OF this]
  show "truncate_desc (clean s) \<noteq> pre @ str ''[P]'' @ post"
    by (simp add: str_simps)
  assume ds: "ds \<noteq> []" "list_all is_digit ds"
  have "clean s \<noteq> pre @ ((str ''[US'' @ ds) @ [0x5D]) @ post" for pre post
    using no_occurrence_inside [OF _ u, of "us_tag ds" pre post] tag_free_no_us [OF free ds]
    by (simp add: us_tag_def str_simps)
  from truncate_no_occurrence [OF this]
  show "truncate_desc (clean s) \<noteq> pre @ us_tag ds @ post"
    by (simp add: us_tag_def str_simps)
qed

lemmas eval_simps = parseTasksFile_def parse_lines_def step_def match_phase_def match_task_def
  match_us_def str_simps is_digit_def dot_def is_line_terminator_def is_white_space_def
  trim_def toLowerCase_def init_state_def close_phase_def make_task_def clean_def
  truncate_desc_def Let_def

section \<open>The claims\<close>

text \<open>
  C1. The five-line document of the specification parses to two phases: \<open>Phase 1: Setup\<close>
  with the tasks T001 (completed, story \<open>[US1]\<close>, description \<open>Initialize project\<close>) and
  T002 (not completed, parallelizable, description \<open>Add linting\<close>), then \<open>Phase 2: Build\<close>
  with the one task T003 (parallelizable, story \<open>[US2]\<close>, description
  \<open>Compile sources\<close>). The items are given in full, labels and line numbers included.
\<close>

theorem parse_spec_example:
  "parseTasksFile path
     (str ''## Phase 1: Setup'' @ [0x0A] @
      str ''- [x] T001 Initialize project [US1]'' @ [0x0A] @
      str ''- [ ] T002 Add linting [P]'' @ [0x0A] @
      str ''## Phase 2: Build'' @ [0x0A] @
      str ''- [ ] T003 Compile sources [P][US2]'') =
   [TaskItem (str ''Phase 1: Setup'') path phase None
      [TaskItem ([0x2713] @ str '' T001 [US1] Initialize project'') path task
         (Some \<lparr>taskId = str ''T001'', description = str ''Initialize project'',
                isCompleted = True, hasParallel = False, story = str ''[US1]'',
                lineNumber = 1\<rparr>) [],
       TaskItem ([0x26A1] @ str '' T002  Add linting'') path task
         (Some \<lparr>taskId = str ''T002'', description = str ''Add linting'',
                isCompleted = False, hasParallel = True, story = [],
                lineNumber = 2\<rparr>) []],
    TaskItem (str ''Phase 2: Build'') path phase None
      [TaskItem ([0x26A1] @ str '' T003 [US2] Compile sources'') path task
         (Some \<lparr>taskId = str ''T003'', description = str ''Compile sources'',
                isCompleted = False, hasParallel = True, story = str ''[US2]'',
                lineNumber = 4\<rparr>) []]]"
  by (simp add: eval_simps)

text \<open>
  C2. A recognized task line (one that matches the task pattern while a phase is open)
  adds one item. With \<open>c\<close> the raw text after the id, trimmed, stripped of its tags and
  trimmed again: when \<open>c\<close> has more than 80 code units the description stored is the
  first 77 of them followed by three dots, 80 in all; when it has 80 or fewer the
  description stored is \<open>c\<close> itself. The length tested is that of \<open>c\<close>, so the cut
  comes after the stripping and trimming.
\<close>

theorem description_truncated:
  "currentPhase st = Some ph \<longrightarrow> match_task line = Some (m, tid, raw) \<longrightarrow>
     currentTasks (step path i line st) = currentTasks st @ [make_task path i (m, tid, raw)] \<and>
     (80 < length (trim (replace_us (replace_P (trim raw)))) \<longrightarrow>
        map_option description (taskData (make_task path i (m, tid, raw))) =
          Some (take 77 (trim (replace_us (replace_P (trim raw)))) @ str ''...'') \<and>
        length (take 77 (trim (replace_us (replace_P (trim raw)))) @ str ''...'') = 80) \<and>
     (length (trim (replace_us (replace_P (trim raw)))) \<le> 80 \<longrightarrow>
        map_option description (taskData (make_task path i (m, tid, raw))) =
          Some (trim (replace_us (replace_P (trim raw)))))"
  by (auto simp: step_task description_make_task truncate_desc_def clean_def str_simps)

theorem description_truncated_witness:
  "match_task (str ''- [ ] T1 [P] abcdefghi abcdefghi abcdefghi abcdefghi abcdefghi abcdefghi abcdefghi abcdefghi abcdefghiz'') =
     Some (0x20, str ''T1'', str '' [P] abcdefghi abcdefghi abcdefghi abcdefghi abcdefghi abcdefghi abcdefghi abcdefghi abcdefghiz'') \<and>
   length (trim (replace_us (replace_P (trim (str '' [P] abcdefghi abcdefghi abcdefghi abcdefghi abcdefghi abcdefghi abcdefghi abcdefghi abcdefghiz''))))) = 90 \<and>
   map (map_option description \<circ> taskData)
     (currentTasks (step [] 1 (str ''- [ ] T1 [P] abcdefghi abcdefghi abcdefghi abcdefghi abcdefghi abcdefghi abcdefghi abcdefghi abcdefghiz'')
        \<lparr>phases = [], currentPhase = Some (TaskItem (str ''Phase 1: A'') [] phase None []), currentTasks = []\<rparr>)) =
     [Some (str ''abcdefghi abcdefghi abcdefghi abcdefghi abcdefghi abcdefghi abcdefghi abcdefg...'')] \<and>
   match_task (str ''- [x] T2 [US1] klmnopqrs klmnopqrs klmnopqrs klmnopqrs klmnopqrs klmnopqrs klmnopqrs klmnopqy [P]'') =
     Some (0x78, str ''T2'', str '' [US1] klmnopqrs klmnopqrs klmnopqrs klmnopqrs klmnopqrs klmnopqrs klmnopqrs klmnopqy [P]'') \<and>
   length (trim (str '' [US1] klmnopqrs klmnopqrs klmnopqrs klmnopqrs klmnopqrs klmnopqrs klmnopqrs klmnopqy [P]'')) = 88 \<and>
   length (trim (replace_us (replace_P (trim (str '' [US1] klmnopqrs klmnopqrs klmnopqrs klmnopqrs klmnopqrs klmnopqrs klmnopqrs klmnopqy [P]''))))) = 78 \<and>
   map (map_option description \<circ> taskData)
     (currentTasks (step [] 1 (str ''- [x] T2 [US1] klmnopqrs klmnopqrs klmnopqrs klmnopqrs klmnopqrs klmnopqrs klmnopqrs klmnopqy [P]'')
        \<lparr>phases = [], currentPhase = Some (TaskItem (str ''Phase 1: A'') [] phase None []), currentTasks = []\<rparr>)) =
     [Some (str ''klmnopqrs klmnopqrs klmnopqrs klmnopqrs klmnopqrs klmnopqrs klmnopqrs klmnopqy'')]"
proof -
  let ?st = "\<lparr>phases = [], currentPhase = Some (TaskItem (str ''Phase 1: A'') [] phase None []), currentTasks = []\<rparr>"
  let ?l1 = "str ''- [ ] T1 [P] abcdefghi abcdefghi abcdefghi abcdefghi abcdefghi abcdefghi abcdefghi abcdefghi abcdefghiz''"
  let ?r1 = "str '' [P] abcdefghi abcdefghi abcdefghi abcdefghi abcdefghi abcdefghi abcdefghi abcdefghi abcdefghiz''"
  let ?l2 = "str ''- [x] T2 [US1] klmnopqrs klmnopqrs klmnopqrs klmnopqrs klmnopqrs klmnopqrs klmnopqrs klmnopqy [P]''"
  let ?r2 = "str '' [US1] klmnopqrs klmnopqrs klmnopqrs klmnopqrs klmnopqrs klmnopqrs klmnopqrs klmnopqy [P]''"
  have st: "currentPhase ?st = Some (TaskItem (str ''Phase 1: A'') [] phase None [])" by simp
  have m1: "match_task ?l1 = Some (0x20, str ''T1'', ?r1)"
    by (simp add: eval_simps)
  have c1: "trim (replace_us (replace_P (trim ?r1))) = str ''abcdefghi abcdefghi abcdefghi abcdefghi abcdefghi abcdefghi abcdefghi abcdefghi abcdefghiz''"
    by (simp add: eval_simps)
  have n1: "length (str ''abcdefghi abcdefghi abcdefghi abcdefghi abcdefghi abcdefghi abcdefghi abcdefghi abcdefghiz'') = 90"
    by (simp add: str_simps)
  have t1: "take 77 (str ''abcdefghi abcdefghi abcdefghi abcdefghi abcdefghi abcdefghi abcdefghi abcdefghi abcdefghiz'') @ str ''...'' = str ''abcdefghi abcdefghi abcdefghi abcdefghi abcdefghi abcdefghi abcdefghi abcdefg...''"
    by (simp add: str_simps)
  have m2: "match_task ?l2 = Some (0x78, str ''T2'', ?r2)"
    by (simp add: eval_simps)
  have c2: "trim (replace_us (replace_P (trim ?r2))) = str ''klmnopqrs klmnopqrs klmnopqrs klmnopqrs klmnopqrs klmnopqrs klmnopqrs klmnopqy''"
    by (simp add: eval_simps)
  have n2: "length (str ''klmnopqrs klmnopqrs klmnopqrs klmnopqrs klmnopqrs klmnopqrs klmnopqrs klmnopqy'') = 78"
    by (simp add: str_simps)
  have n3: "length (trim ?r2) = 88"
    by (simp add: eval_simps)
  from description_truncated [of ?st "TaskItem (str ''Phase 1: A'') [] phase None []" ?l1 "0x20" "str ''T1''" ?r1 "[]" 1] st m1
  have "currentTasks (step [] 1 ?l1 ?st) = [make_task [] 1 (0x20, str ''T1'', ?r1)]"
    and "map_option description (taskData (make_task [] 1 (0x20, str ''T1'', ?r1))) =
      Some (str ''abcdefghi abcdefghi abcdefghi abcdefghi abcdefghi abcdefghi abcdefghi abcdefg...'')"
    unfolding c1 t1 n1 by simp_all
  moreover
  from description_truncated [of ?st "TaskItem (str ''Phase 1: A'') [] phase None []" ?l2 "0x78" "str ''T2''" ?r2 "[]" 1] st m2
  have "currentTasks (step [] 1 ?l2 ?st) = [make_task [] 1 (0x78, str ''T2'', ?r2)]"
    and "map_option description (taskData (make_task [] 1 (0x78, str ''T2'', ?r2))) =
      Some (str ''klmnopqrs klmnopqrs klmnopqrs klmnopqrs klmnopqrs klmnopqrs klmnopqrs klmnopqy'')"
    unfolding c2 n2 by simp_all
  ultimately show ?thesis
    using m1 m2 n3 unfolding c1 c2 n1 n2 by simp
qed

text \<open>
  C3, as stated, fails. Each \<open>replace\<close> is one pass and does not look again at the text
  it has produced: in \<open>[[P]P] [U[US2]S2] fix\<close> the inner tags are deleted and the text
  around them closes up into \<open>[P] [US2] fix\<close>, which is stored with both tags in it.
\<close>

theorem nested_tag_kept:
  "map (map (map_option description \<circ> taskData) \<circ> tasks)
     (parseTasksFile []
        (str ''## Phase 1: A'' @ [0x0A] @ str ''- [ ] T1 [[P]P] [U[US2]S2] fix'')) =
     [[Some (str ''[P] [US2] fix'')]] \<and>
   str ''[P] [US2] fix'' = [] @ str ''[P]'' @ str '' [US2] fix'' \<and>
   str ''[P] [US2] fix'' = str ''[P] '' @ us_tag (str ''2'') @ str '' fix'' \<and>
   str ''2'' \<noteq> [] \<and> list_all is_digit (str ''2'')"
  by (simp add: eval_simps us_tag_def)

text \<open>
  C3, amended. On a recognized task line the description stored is the raw description
  (the trimmed text after the id) after the \<open>[P]\<close> pass, the \<open>[US<digits>]\<close> pass, the
  trimming and the cut to 80 code units. The \<open>[P]\<close> pass deletes every occurrence of
  \<open>[P]\<close> in its input: around any occurrence the result is the result of the text before
  it followed by the result of the text after it, and a text without occurrence is
  returned as it is. The \<open>[US<digits>]\<close> pass does the same with the occurrences of
  \<open>[US<digits>]\<close> in the text that the \<open>[P]\<close> pass returns. When no \<open>[P]\<close> and no
  \<open>[US<digits>]\<close> of the raw description begins inside an open bracket, the description
  stored contains no \<open>[P]\<close> and no \<open>[US<digits>]\<close>; other brackets in the text do not
  matter. The story is empty when the raw description has no \<open>[US<digits>]\<close>; when it
  has one, the story is such a tag of the raw description, at a position no later than
  any other, that is, the first.
\<close>

theorem tags_stripped_and_story:
  "(currentPhase st = Some ph \<longrightarrow> match_task line = Some (m, tid, raw) \<longrightarrow>
     (\<exists>d. currentTasks (step path i line st) = currentTasks st @ [make_task path i (m, tid, raw)] \<and>
        taskData (make_task path i (m, tid, raw)) = Some d \<and>
        description d = truncate_desc (trim (replace_us (replace_P (trim raw)))) \<and>
        (no_tag_in_bracket False (trim raw) \<longrightarrow>
           (\<forall>pre post. description d \<noteq> pre @ str ''[P]'' @ post) \<and>
           (\<forall>pre ds post. ds \<noteq> [] \<longrightarrow> list_all is_digit ds \<longrightarrow>
              description d \<noteq> pre @ us_tag ds @ post)) \<and>
        ((\<forall>pre ds post. ds \<noteq> [] \<longrightarrow> list_all is_digit ds \<longrightarrow>
            trim raw \<noteq> pre @ us_tag ds @ post) \<longrightarrow> story d = []) \<and>
        (\<forall>pre ds post. ds \<noteq> [] \<longrightarrow> list_all is_digit ds \<longrightarrow>
           trim raw = pre @ us_tag ds @ post \<longrightarrow>
           (\<exists>pre' ds' post'. ds' \<noteq> [] \<and> list_all is_digit ds' \<and>
              trim raw = pre' @ us_tag ds' @ post' \<and> length pre' \<le> length pre \<and>
              story d = us_tag ds')))) \<and>
   (\<forall>pre post. replace_P (pre @ str ''[P]'' @ post) = replace_P pre @ replace_P post) \<and>
   ((\<forall>pre post. s \<noteq> pre @ str ''[P]'' @ post) \<longrightarrow> replace_P s = s) \<and>
   (\<forall>pre ds post. ds \<noteq> [] \<longrightarrow> list_all is_digit ds \<longrightarrow>
      replace_us (pre @ us_tag ds @ post) = replace_us pre @ replace_us post) \<and>
   ((\<forall>pre ds post. ds \<noteq> [] \<longrightarrow> list_all is_digit ds \<longrightarrow> t \<noteq> pre @ us_tag ds @ post) \<longrightarrow>
      replace_us t = t)"
proof (intro conjI impI allI)
  assume open_phase: "currentPhase st = Some ph" and tm: "match_task line = Some (m, tid, raw)"
  obtain d where d: "taskData (make_task path i (m, tid, raw)) = Some d"
    using taskData_make_task [of path i "(m, tid, raw)"] by blast
  have desc: "description d = truncate_desc (clean (trim raw))"
    using description_make_task [of path i m tid raw] d by simp
  have st: "story d = (case search_us (trim raw) of Some t \<Rightarrow> t | None \<Rightarrow> [])"
    using story_make_task [of path i m tid raw] d by simp
  have 1: "currentTasks (step path i line st) = currentTasks st @ [make_task path i (m, tid, raw)]"
    using open_phase tm by (simp add: step_task)
  have 2: "(\<forall>pre post. description d \<noteq> pre @ str ''[P]'' @ post) \<and>
         (\<forall>pre ds post. ds \<noteq> [] \<longrightarrow> list_all is_digit ds \<longrightarrow>
            description d \<noteq> pre @ us_tag ds @ post)"
    if "no_tag_in_bracket False (trim raw)"
    using description_no_tag [OF that] by (simp add: desc)
  have 3: "story d = []"
    if none: "\<forall>pre ds post. ds \<noteq> [] \<longrightarrow> list_all is_digit ds \<longrightarrow>
          trim raw \<noteq> pre @ us_tag ds @ post"
  proof (cases "search_us (trim raw)")
    case None
    then show ?thesis by (simp add: st)
  next
    case (Some t)
    from search_us_Some [OF this] obtain pre r where "trim raw = pre @ t @ r"
      and "match_us (t @ r) = Some (t, r)" by blast
    with none show ?thesis by (auto simp: match_us_iff)
  qed
  have 4: "\<exists>pre' ds' post'. ds' \<noteq> [] \<and> list_all is_digit ds' \<and>
            trim raw = pre' @ us_tag ds' @ post' \<and> length pre' \<le> length pre \<and>
            story d = us_tag ds'"
    if occ: "ds \<noteq> []" "list_all is_digit ds" "trim raw = pre @ us_tag ds @ post"
    for pre ds post
  proof (cases "search_us (trim raw)")
    case None
    from search_us_None [OF None occ(3)] us_tag_occurs [OF occ(1,2), of post]
    show ?thesis by simp
  next
    case (Some t)
    from search_us_Some [OF this] obtain pre0 r where s: "trim raw = pre0 @ t @ r"
      and m: "match_us (t @ r) = Some (t, r)"
      and first: "\<And>pre' u. trim raw = pre' @ u \<Longrightarrow> length pre' < length pre0 \<Longrightarrow>
        match_us u = None"
      by blast
    from m obtain ds0 where ds0: "ds0 \<noteq> []" "list_all is_digit ds0" "t = us_tag ds0"
      by (auto simp: match_us_iff)
    have "length pre0 \<le> length pre"
    proof (rule ccontr)
      assume "\<not> length pre0 \<le> length pre"
      then have "length pre < length pre0" by simp
      from first [OF occ(3) this] us_tag_occurs [OF occ(1,2), of post]
      show False by simp
    qed
    with s ds0 Some show ?thesis
      by (intro exI [of _ pre0] exI [of _ ds0] exI [of _ r]) (simp add: st)
  qed
  show "\<exists>d. currentTasks (step path i line st) = currentTasks st @ [make_task path i (m, tid, raw)] \<and>
    taskData (make_task path i (m, tid, raw)) = Some d \<and>
    description d = truncate_desc (trim (replace_us (replace_P (trim raw)))) \<and>
    (no_tag_in_bracket False (trim raw) \<longrightarrow>
       (\<forall>pre post. description d \<noteq> pre @ str ''[P]'' @ post) \<and>
       (\<forall>pre ds post. ds \<noteq> [] \<longrightarrow> list_all is_digit ds \<longrightarrow>
          description d \<noteq> pre @ us_tag ds @ post)) \<and>
    ((\<forall>pre ds post. ds \<noteq> [] \<longrightarrow> list_all is_digit ds \<longrightarrow>
        trim raw \<noteq> pre @ us_tag ds @ post) \<longrightarrow> story d = []) \<and>
    (\<forall>pre ds post. ds \<noteq> [] \<longrightarrow> list_all is_digit ds \<longrightarrow>
       trim raw = pre @ us_tag ds @ post \<longrightarrow>
       (\<exists>pre' ds' post'. ds' \<noteq> [] \<and> list_all is_digit ds' \<and>
          trim raw = pre' @ us_tag ds' @ post' \<and> length pre' \<le> length pre \<and>
          story d = us_tag ds'))"
  proof (intro exI [of _ d] conjI)
    show "currentTasks (step path i line st) = currentTasks st @ [make_task path i (m, tid, raw)]"
      by (rule 1)
    show "taskData (make_task path i (m, tid, raw)) = Some d" by (rule d)
    show "description d = truncate_desc (trim (replace_us (replace_P (trim raw))))"
      using desc by (simp only: clean_def)
    show "no_tag_in_bracket False (trim raw) \<longrightarrow>
       (\<forall>pre post. description d \<noteq> pre @ str ''[P]'' @ post) \<and>
       (\<forall>pre ds post. ds \<noteq> [] \<longrightarrow> list_all is_digit ds \<longrightarrow>
          description d \<noteq> pre @ us_tag ds @ post)"
      using 2 by (rule impI)
    show "(\<forall>pre ds post. ds \<noteq> [] \<longrightarrow> list_all is_digit ds \<longrightarrow>
        trim raw \<noteq> pre @ us_tag ds @ post) \<longrightarrow> story d = []"
      using 3 by (rule impI)
    show "\<forall>pre ds post. ds \<noteq> [] \<longrightarrow> list_all is_digit ds \<longrightarrow>
       trim raw = pre @ us_tag ds @ post \<longrightarrow>
       (\<exists>pre' ds' post'. ds' \<noteq> [] \<and> list_all is_digit ds' \<and>
          trim raw = pre' @ us_tag ds' @ post' \<and> length pre' \<le> length pre \<and>
          story d = us_tag ds')"
      using 4 by (intro allI impI)
  qed
next
  show "replace_P (pre @ str ''[P]'' @ post) = replace_P pre @ replace_P post" for pre post
    by (rule replace_P_occurrence)
  show "replace_P s = s" if "\<forall>pre post. s \<noteq> pre @ str ''[P]'' @ post"
    using that by (intro replace_P_none) blast
  show "replace_us (pre @ us_tag ds @ post) = replace_us pre @ replace_us post"
    if "ds \<noteq> []" "list_all is_digit ds" for pre ds post
    using that by (rule replace_us_occurrence)
  show "replace_us t = t"
    if "\<forall>pre ds post. ds \<noteq> [] \<longrightarrow> list_all is_digit ds \<longrightarrow> t \<noteq> pre @ us_tag ds @ post"
    using that by (intro replace_us_none) blast
qed

theorem tags_stripped_and_story_witness:
  "match_task (str ''- [ ] T1 see [docs] [P] now [US1]'') =
     Some (0x20, str ''T1'', str '' see [docs] [P] now [US1]'') \<and>
   no_tag_in_bracket False (trim (str '' see [docs] [P] now [US1]'')) \<and>
   trim (str '' see [docs] [P] now [US1]'') = str ''see [docs] [P] now '' @ us_tag (str ''1'') @ [] \<and>
   map (map_option description \<circ> taskData)
     (currentTasks (step [] 1 (str ''- [ ] T1 see [docs] [P] now [US1]'')
        \<lparr>phases = [], currentPhase = Some (TaskItem (str ''Phase 1: A'') [] phase None []), currentTasks = []\<rparr>)) =
     [Some (str ''see [docs]  now'')] \<and>
   map (map_option story \<circ> taskData)
     (currentTasks (step [] 1 (str ''- [ ] T1 see [docs] [P] now [US1]'')
        \<lparr>phases = [], currentPhase = Some (TaskItem (str ''Phase 1: A'') [] phase None []), currentTasks = []\<rparr>)) =
     [Some (str ''[US1]'')] \<and>
   (\<exists>d. taskData (make_task [] 1 (0x20, str ''T1'', str '' see [docs] [P] now [US1]'')) = Some d \<and>
      (\<forall>pre post. description d \<noteq> pre @ str ''[P]'' @ post) \<and>
      (\<forall>pre ds post. ds \<noteq> [] \<longrightarrow> list_all is_digit ds \<longrightarrow>
         description d \<noteq> pre @ us_tag ds @ post) \<and>
      (\<exists>pre' ds' post'. trim (str '' see [docs] [P] now [US1]'') = pre' @ us_tag ds' @ post' \<and>
         length pre' \<le> length (str ''see [docs] [P] now '') \<and> story d = us_tag ds')) \<and>
   replace_P (str ''a[0]'') = str ''a[0]'' \<and>
   replace_us (str ''a[0]'') = str ''a[0]'' \<and>
   replace_P (str ''[P] x '' @ str ''[P]'' @ str '' y[P]'') =
     replace_P (str ''[P] x '') @ replace_P (str '' y[P]'') \<and>
   replace_us (str ''a '' @ us_tag (str ''12'') @ str '' b'') =
     replace_us (str ''a '') @ replace_us (str '' b'')"
proof -
  let ?st = "\<lparr>phases = [], currentPhase = Some (TaskItem (str ''Phase 1: A'') [] phase None []), currentTasks = []\<rparr>"
  let ?l = "str ''- [ ] T1 see [docs] [P] now [US1]''"
  let ?r = "str '' see [docs] [P] now [US1]''"
  note T = tags_stripped_and_story [where st = ?st and ph = "TaskItem (str ''Phase 1: A'') [] phase None []" and line = ?l
      and m = "0x20" and tid = "str ''T1''" and raw = ?r and path = "[]" and i = 1
      and s = "str ''a[0]''" and t = "str ''a[0]''"]
  have st: "currentPhase ?st = Some (TaskItem (str ''Phase 1: A'') [] phase None [])" by simp
  have m: "match_task ?l = Some (0x20, str ''T1'', ?r)"
    by (simp add: eval_simps)
  have t: "trim ?r = str ''see [docs] [P] now [US1]''"
    by (simp add: eval_simps)
  have g: "no_tag_in_bracket False (trim ?r)"
    unfolding t by (simp add: eval_simps next_open_def)
  have o: "trim ?r = str ''see [docs] [P] now '' @ us_tag (str ''1'') @ []"
    unfolding t by (simp add: str_simps us_tag_def)
  have ds: "str ''1'' \<noteq> []" "list_all is_digit (str ''1'')"
    "str ''12'' \<noteq> []" "list_all is_digit (str ''12'')"
    by (simp_all add: str_simps is_digit_def)
  have v: "map (map_option description \<circ> taskData) (currentTasks (step [] 1 ?l ?st)) =
       [Some (str ''see [docs]  now'')]"
     "map (map_option story \<circ> taskData) (currentTasks (step [] 1 ?l ?st)) =
       [Some (str ''[US1]'')]"
    by (simp_all add: eval_simps)
  have "tag_free (str ''a[0]'')" by (simp add: eval_simps)
  then have n: "\<forall>pre post. str ''a[0]'' \<noteq> pre @ str ''[P]'' @ post"
    "\<forall>pre ds post. ds \<noteq> [] \<longrightarrow> list_all is_digit ds \<longrightarrow>
       str ''a[0]'' \<noteq> pre @ us_tag ds @ post"
    using tag_free_no_P tag_free_no_us by blast+
  note T1 = T [THEN conjunct1, rule_format, OF st m]
  note L1 = T [THEN conjunct2, THEN conjunct1, rule_format]
  note L2 = T [THEN conjunct2, THEN conjunct2, THEN conjunct1, rule_format]
  note L3 = T [THEN conjunct2, THEN conjunct2, THEN conjunct2, THEN conjunct1, rule_format]
  note L4 = T [THEN conjunct2, THEN conjunct2, THEN conjunct2, THEN conjunct2, rule_format]
  from T1 obtain d where d: "taskData (make_task [] 1 (0x20, str ''T1'', ?r)) = Some d"
    and p: "no_tag_in_bracket False (trim ?r) \<longrightarrow>
         (\<forall>pre post. description d \<noteq> pre @ str ''[P]'' @ post) \<and>
         (\<forall>pre ds post. ds \<noteq> [] \<longrightarrow> list_all is_digit ds \<longrightarrow>
            description d \<noteq> pre @ us_tag ds @ post)"
    and f: "\<forall>pre ds post. ds \<noteq> [] \<longrightarrow> list_all is_digit ds \<longrightarrow>
         trim ?r = pre @ us_tag ds @ post \<longrightarrow>
         (\<exists>pre' ds' post'. ds' \<noteq> [] \<and> list_all is_digit ds' \<and>
            trim ?r = pre' @ us_tag ds' @ post' \<and> length pre' \<le> length pre \<and>
            story d = us_tag ds')"
    by (elim exE conjE) (rule that; assumption)
  from f [rule_format, OF ds(1,2) o] obtain pre' ds' post' where
    w: "trim ?r = pre' @ us_tag ds' @ post'"
      "length pre' \<le> length (str ''see [docs] [P] now '')" "story d = us_tag ds'"
    by (elim exE conjE) (rule that; assumption)
  note q = p [rule_format, OF g]
  have 1: "\<exists>d. taskData (make_task [] 1 (0x20, str ''T1'', ?r)) = Some d \<and>
      (\<forall>pre post. description d \<noteq> pre @ str ''[P]'' @ post) \<and>
      (\<forall>pre ds post. ds \<noteq> [] \<longrightarrow> list_all is_digit ds \<longrightarrow>
         description d \<noteq> pre @ us_tag ds @ post) \<and>
      (\<exists>pre' ds' post'. trim ?r = pre' @ us_tag ds' @ post' \<and>
         length pre' \<le> length (str ''see [docs] [P] now '') \<and> story d = us_tag ds')"
  proof (intro exI [of _ d] conjI)
    show "taskData (make_task [] 1 (0x20, str ''T1'', ?r)) = Some d" by (rule d)
    show "\<forall>pre post. description d \<noteq> pre @ str ''[P]'' @ post" by (rule q [THEN conjunct1])
    show "\<forall>pre ds post. ds \<noteq> [] \<longrightarrow> list_all is_digit ds \<longrightarrow>
         description d \<noteq> pre @ us_tag ds @ post" by (rule q [THEN conjunct2])
    show "\<exists>pre' ds' post'. trim ?r = pre' @ us_tag ds' @ post' \<and>
         length pre' \<le> length (str ''see [docs] [P] now '') \<and> story d = us_tag ds'"
      using w by (intro exI [of _ pre'] exI [of _ ds'] exI [of _ post'] conjI)
  qed
  have 2: "replace_P (str ''a[0]'') = str ''a[0]''" by (rule L2 [OF n(1) [rule_format]])
  have 3: "replace_us (str ''a[0]'') = str ''a[0]''" by (rule L4 [OF n(2) [rule_format]])
  have 4: "replace_P (str ''[P] x '' @ str ''[P]'' @ str '' y[P]'') =
     replace_P (str ''[P] x '') @ replace_P (str '' y[P]'')"
    by (rule L1)
  have 5: "replace_us (str ''a '' @ us_tag (str ''12'') @ str '' b'') =
     replace_us (str ''a '') @ replace_us (str '' b'')"
    by (rule L3 [OF ds(3,4)])
  from m g o v 1 2 3 4 5 show ?thesis by (intro conjI)
qed

text \<open>
  C4. A line that matches the task pattern while no phase is open leaves the loop variables
  as they are. For a whole document: when no line of a prefix \<open>pre\<close> of its lines is a
  phase header, the result is that of the remaining lines alone (numbered from
  \<open>length pre\<close> on); its phases are those of the headers in the remaining lines, so none
  is made up, and every task in it comes from a line after the prefix.
\<close>

theorem task_before_header_dropped:
  "(currentPhase st = None \<longrightarrow> match_task line \<noteq> None \<longrightarrow> step path i line st = st) \<and>
   ((\<forall>l\<in>set pre. match_phase l = None) \<longrightarrow> split_nl content = pre @ rest \<longrightarrow>
      parseTasksFile path content = parse_lines path (length pre) rest \<and>
      map label (parseTasksFile path content) = phase_names rest \<and>
      (\<forall>p\<in>set (parseTasksFile path content). \<forall>t\<in>set (tasks p).
         \<exists>d. taskData t = Some d \<and> length pre \<le> lineNumber d))"
proof (intro conjI impI)
  assume "currentPhase st = None" and "match_task line \<noteq> None"
  then show "step path i line st = st"
    by (auto simp: step_closed dest: match_task_not_phase)
next
  assume pre: "\<forall>l\<in>set pre. match_phase l = None" and c: "split_nl content = pre @ rest"
  show eq: "parseTasksFile path content = parse_lines path (length pre) rest"
    using parse_lines_skip [OF pre, of path 0 rest] by (simp add: parseTasksFile_def c)
  show "map label (parseTasksFile path content) = phase_names rest"
    by (simp add: eq labels_parse_lines)
  show "\<forall>p\<in>set (parseTasksFile path content). \<forall>t\<in>set (tasks p).
         \<exists>d. taskData t = Some d \<and> length pre \<le> lineNumber d"
  proof (intro ballI)
    fix p t assume "p \<in> set (parseTasksFile path content)" and "t \<in> set (tasks p)"
    then have "t \<in> set (concat (map tasks (parse_lines path (length pre) rest)))"
      by (auto simp: eq)
    moreover from tasks_parse_lines [of rest path "length pre"] obtain k where
      "concat (map tasks (parse_lines path (length pre) rest)) =
       task_items path (length pre + k) (drop k rest)" by blast
    ultimately have "t \<in> set (task_items path (length pre + k) (drop k rest))"
      by (simp only:)
    from task_items_lines [OF this] show "\<exists>d. taskData t = Some d \<and> length pre \<le> lineNumber d"
      by auto
  qed
qed

theorem task_before_header_dropped_witness:
  "currentPhase init_state = None \<and> match_task (str ''- [ ] T000 early'') \<noteq> None \<and>
   step [] 0 (str ''- [ ] T000 early'') init_state = init_state \<and>
   match_phase (str ''- [ ] T000 early'') = None \<and>
   split_nl (str ''- [ ] T000 early'' @ [0x0A] @ str ''## Phase 1: A'') =
     [str ''- [ ] T000 early''] @ [str ''## Phase 1: A''] \<and>
   parseTasksFile [] (str ''- [ ] T000 early'' @ [0x0A] @ str ''## Phase 1: A'') =
     [TaskItem (str ''Phase 1: A'') [] phase None []]"
proof -
  have 1: "currentPhase init_state = None" by (simp add: init_state_def)
  have 2: "match_task (str ''- [ ] T000 early'') \<noteq> None" by (simp add: eval_simps)
  have 3: "match_phase (str ''- [ ] T000 early'') = None" by (simp add: eval_simps)
  then have 6: "\<forall>l\<in>set [str ''- [ ] T000 early'']. match_phase l = None" by simp
  have 4: "split_nl (str ''- [ ] T000 early'' @ [0x0A] @ str ''## Phase 1: A'') =
     [str ''- [ ] T000 early''] @ [str ''## Phase 1: A'']" by (simp add: str_simps)
  have 5: "parse_lines [] (length [str ''- [ ] T000 early'']) [str ''## Phase 1: A''] =
     [TaskItem (str ''Phase 1: A'') [] phase None []]" by (simp add: eval_simps)
  from task_before_header_dropped [of init_state "str ''- [ ] T000 early''" "[]" 0
      "[str ''- [ ] T000 early'']" "str ''- [ ] T000 early'' @ [0x0A] @ str ''## Phase 1: A''"
      "[str ''## Phase 1: A'']"] 1 2 3 6 4 5
  show ?thesis by metis
qed

text \<open>
  C5. On a recognized task line the item made has \<open>isCompleted\<close> true exactly when the
  marker is \<open>x\<close> or \<open>X\<close>, and its id is the second capture. A line only matches the task
  pattern when it starts with \<open>- [\<close>, one of space, \<open>x\<close>, \<open>X\<close>, then \<open>] \<close>, an upper-case
  \<open>T\<close> and at least one digit; with a lower-case \<open>t\<close>, with something other than a digit
  after the \<open>T\<close>, or with nothing after it, the line does not match.
\<close>

theorem completed_and_task_id:
  "(currentPhase st = Some ph \<longrightarrow> match_task line = Some (m, tid, raw) \<longrightarrow>
      currentTasks (step path i line st) = currentTasks st @ [make_task path i (m, tid, raw)] \<and>
      map_option isCompleted (taskData (make_task path i (m, tid, raw))) =
        Some (m = 0x78 \<or> m = 0x58) \<and>
      map_option taskId (taskData (make_task path i (m, tid, raw))) = Some tid) \<and>
   (match_task line = Some (m, tid, raw) \<longrightarrow>
      (m = 0x20 \<or> m = 0x78 \<or> m = 0x58) \<and>
      (\<exists>ds rest. ds \<noteq> [] \<and> list_all is_digit ds \<and> tid = 0x54 # ds \<and>
         line = str ''- ['' @ [m] @ str ''] '' @ tid @ raw @ rest)) \<and>
   match_task (str ''- ['' @ [k] @ str ''] t'' @ u) = None \<and>
   (\<not> is_digit c \<longrightarrow> match_task (str ''- ['' @ [k] @ str ''] T'' @ c # u) = None) \<and>
   match_task (str ''- ['' @ [k] @ str ''] T'') = None"
proof (intro conjI impI)
  assume open_phase: "currentPhase st = Some ph" and tm: "match_task line = Some (m, tid, raw)"
  from match_task_sound [OF tm] have m: "m = 0x20 \<or> m = 0x78 \<or> m = 0x58" by blast
  show "currentTasks (step path i line st) = currentTasks st @ [make_task path i (m, tid, raw)]"
    using open_phase tm by (simp add: step_task)
  show "map_option isCompleted (taskData (make_task path i (m, tid, raw))) =
        Some (m = 0x78 \<or> m = 0x58)"
    using m by (rule isCompleted_make_task)
  show "map_option taskId (taskData (make_task path i (m, tid, raw))) = Some tid"
    by (rule taskId_make_task)
next
  assume tm: "match_task line = Some (m, tid, raw)"
  from match_task_sound [OF tm] show "m = 0x20 \<or> m = 0x78 \<or> m = 0x58" by blast
  from match_task_sound [OF tm]
  show "\<exists>ds rest. ds \<noteq> [] \<and> list_all is_digit ds \<and> tid = 0x54 # ds \<and>
         line = str ''- ['' @ [m] @ str ''] '' @ tid @ raw @ rest"
    by blast
next
  show "match_task (str ''- ['' @ [k] @ str ''] t'' @ u) = None"
    by (simp add: match_task_def str_simps)
  show "match_task (str ''- ['' @ [k] @ str ''] T'') = None"
    by (simp add: match_task_def str_simps)
next
  assume "\<not> is_digit c"
  then show "match_task (str ''- ['' @ [k] @ str ''] T'' @ c # u) = None"
    by (simp add: match_task_def str_simps)
qed

theorem completed_and_task_id_witness:
  "match_task (str ''- [X] T12 go'') = Some (0x58, str ''T12'', str '' go'') \<and>
   map (map_option (\<lambda>d. (taskId d, isCompleted d)) \<circ> taskData)
     (currentTasks (step [] 1 (str ''- [X] T12 go'')
        \<lparr>phases = [], currentPhase = Some (TaskItem (str ''Phase 1: A'') [] phase None []), currentTasks = []\<rparr>)) =
     [Some (str ''T12'', True)] \<and>
   match_task (str ''- [ ] T12 go'') = Some (0x20, str ''T12'', str '' go'') \<and>
   map (map_option (\<lambda>d. (taskId d, isCompleted d)) \<circ> taskData)
     (currentTasks (step [] 1 (str ''- [ ] T12 go'')
        \<lparr>phases = [], currentPhase = Some (TaskItem (str ''Phase 1: A'') [] phase None []), currentTasks = []\<rparr>)) =
     [Some (str ''T12'', False)] \<and>
   match_task (str ''- [x] t12 go'') = None \<and>
   \<not> is_digit 0x61 \<and> match_task (str ''- [x] Ta2 go'') = None"
proof -
  let ?st = "\<lparr>phases = [], currentPhase = Some (TaskItem (str ''Phase 1: A'') [] phase None []), currentTasks = []\<rparr>"
  have st: "currentPhase ?st = Some (TaskItem (str ''Phase 1: A'') [] phase None [])" by simp
  have m1: "match_task (str ''- [X] T12 go'') = Some (0x58, str ''T12'', str '' go'')"
    by (simp add: eval_simps)
  have m2: "match_task (str ''- [ ] T12 go'') = Some (0x20, str ''T12'', str '' go'')"
    by (simp add: eval_simps)
  have d: "\<not> is_digit 0x61" by (simp add: is_digit_def)
  have s1: "str ''- [x] t12 go'' = str ''- ['' @ [0x78] @ str ''] t'' @ str ''12 go''"
    and s2: "str ''- [x] Ta2 go'' = str ''- ['' @ [0x78] @ str ''] T'' @ 0x61 # str ''2 go''"
    by (simp_all add: str_simps)
  note a = completed_and_task_id [where st = ?st and line = "str ''- [X] T12 go''" and m = "0x58"
      and tid = "str ''T12''" and raw = "str '' go''" and path = "[]" and i = 1 and k = "0x78"
      and u = "str ''12 go''" and c = "0x61"]
  note b = completed_and_task_id [where st = ?st and line = "str ''- [ ] T12 go''" and m = "0x20"
      and tid = "str ''T12''" and raw = "str '' go''" and path = "[]" and i = 1 and k = "0x78"
      and u = "str ''2 go''" and c = "0x61"]
  from a st m1 have
    "currentTasks (step [] 1 (str ''- [X] T12 go'') ?st) =
       [make_task [] 1 (0x58, str ''T12'', str '' go'')]"
    "map_option isCompleted (taskData (make_task [] 1 (0x58, str ''T12'', str '' go''))) = Some True"
    "map_option taskId (taskData (make_task [] 1 (0x58, str ''T12'', str '' go''))) = Some (str ''T12'')"
    by simp_all
  moreover from b st m2 have
    "currentTasks (step [] 1 (str ''- [ ] T12 go'') ?st) =
       [make_task [] 1 (0x20, str ''T12'', str '' go'')]"
    "map_option isCompleted (taskData (make_task [] 1 (0x20, str ''T12'', str '' go''))) = Some False"
    "map_option taskId (taskData (make_task [] 1 (0x20, str ''T12'', str '' go''))) = Some (str ''T12'')"
    by simp_all
  moreover from a have "match_task (str ''- [x] t12 go'') = None"
    unfolding s1 by blast
  moreover from b d have "match_task (str ''- [x] Ta2 go'') = None"
    unfolding s2 by blast
  ultimately show ?thesis
    using m1 m2 d by (auto simp: map_option_case split: option.splits)
qed

text \<open>
  C6. The labels of the phases returned are the names that the header lines of the
  document give, in line order. The tasks of the result, taken phase after phase, are
  in strictly increasing order of source line. And each task sits in the phase opened
  last before it: when the lines are \<open>pre\<close>, a header \<open>h\<close>, lines \<open>body\<close> without a
  header, and \<open>rest\<close> that is empty or starts with a header, the result is the phases of
  \<open>pre\<close>, then the phase of \<open>h\<close> holding the tasks of \<open>body\<close> in line order, then the
  phases of \<open>rest\<close>.
\<close>

theorem parse_document_order:
  "map label (parseTasksFile path content) = phase_names (split_nl content) \<and>
   sorted_wrt line_before (concat (map tasks (parseTasksFile path content))) \<and>
   (split_nl content = pre @ h # body @ rest \<longrightarrow> match_phase h = Some (g1, g2) \<longrightarrow>
    (\<forall>l\<in>set body. match_phase l = None) \<longrightarrow> (rest = [] \<or> match_phase (hd rest) \<noteq> None) \<longrightarrow>
      parseTasksFile path content =
        parse_lines path 0 pre @
        TaskItem (g1 @ str '': '' @ g2) path phase None
          (task_items path (Suc (length pre)) body) #
        parse_lines path (Suc (length pre + length body)) rest)"
proof (intro conjI impI)
  show "map label (parseTasksFile path content) = phase_names (split_nl content)"
    by (simp add: parseTasksFile_def labels_parse_lines)
  from tasks_parse_lines [of "split_nl content" path 0] obtain k where
    "concat (map tasks (parseTasksFile path content)) =
     task_items path (0 + k) (drop k (split_nl content))"
    unfolding parseTasksFile_def by blast
  then show "sorted_wrt line_before (concat (map tasks (parseTasksFile path content)))"
    by (simp only: sorted_task_items)
next
  assume "split_nl content = pre @ h # body @ rest" "match_phase h = Some (g1, g2)"
    "\<forall>l\<in>set body. match_phase l = None" "rest = [] \<or> match_phase (hd rest) \<noteq> None"
  then show "parseTasksFile path content =
        parse_lines path 0 pre @
        TaskItem (g1 @ str '': '' @ g2) path phase None
          (task_items path (Suc (length pre)) body) #
        parse_lines path (Suc (length pre + length body)) rest"
    using parse_lines_decomp [of h g1 g2 body rest path 0 pre]
    by (simp add: parseTasksFile_def)
qed

theorem parse_document_order_witness:
  "split_nl (str ''## Phase 1: A'' @ [0x0A] @ str ''- [ ] T2 b'' @ [0x0A] @ str ''- [x] T1 a'' @
      [0x0A] @ str ''## Phase 2: B'') =
     [] @ str ''## Phase 1: A'' # [str ''- [ ] T2 b'', str ''- [x] T1 a''] @ [str ''## Phase 2: B''] \<and>
   match_phase (str ''## Phase 1: A'') = Some (str ''Phase 1'', str ''A'') \<and>
   match_phase (str ''- [ ] T2 b'') = None \<and> match_phase (str ''- [x] T1 a'') = None \<and>
   match_phase (hd [str ''## Phase 2: B'']) \<noteq> None \<and>
   map label (parseTasksFile [] (str ''## Phase 1: A'' @ [0x0A] @ str ''- [ ] T2 b'' @ [0x0A] @
      str ''- [x] T1 a'' @ [0x0A] @ str ''## Phase 2: B'')) = [str ''Phase 1: A'', str ''Phase 2: B''] \<and>
   map (map (map_option (\<lambda>d. (taskId d, lineNumber d)) \<circ> taskData) \<circ> tasks)
     (parseTasksFile [] (str ''## Phase 1: A'' @ [0x0A] @ str ''- [ ] T2 b'' @ [0x0A] @
      str ''- [x] T1 a'' @ [0x0A] @ str ''## Phase 2: B'')) =
     [[Some (str ''T2'', 1), Some (str ''T1'', 2)], []]"
proof -
  let ?doc = "str ''## Phase 1: A'' @ [0x0A] @ str ''- [ ] T2 b'' @ [0x0A] @ str ''- [x] T1 a'' @
      [0x0A] @ str ''## Phase 2: B''"
  have 1: "split_nl ?doc =
     [] @ str ''## Phase 1: A'' # [str ''- [ ] T2 b'', str ''- [x] T1 a''] @ [str ''## Phase 2: B'']"
    by (simp add: str_simps)
  have 2: "match_phase (str ''## Phase 1: A'') = Some (str ''Phase 1'', str ''A'')"
    by (simp add: eval_simps)
  have 3: "match_phase (str ''- [ ] T2 b'') = None" "match_phase (str ''- [x] T1 a'') = None"
    by (simp_all add: eval_simps)
  then have 4: "\<forall>l\<in>set [str ''- [ ] T2 b'', str ''- [x] T1 a'']. match_phase l = None" by simp
  have 5: "match_phase (hd [str ''## Phase 2: B'']) \<noteq> None"
    by (simp add: eval_simps)
  have 6: "phase_names (split_nl ?doc) = [str ''Phase 1: A'', str ''Phase 2: B'']"
    unfolding 1 by (simp add: eval_simps)
  have 7: "map (map_option (\<lambda>d. (taskId d, lineNumber d)) \<circ> taskData)
      (task_items [] (Suc (length ([] :: jsstring list))) [str ''- [ ] T2 b'', str ''- [x] T1 a'']) =
      [Some (str ''T2'', 1), Some (str ''T1'', 2)]"
    by (simp add: eval_simps)
  have 8: "parse_lines [] (Suc (length ([] :: jsstring list) +
       length [str ''- [ ] T2 b'', str ''- [x] T1 a''])) [str ''## Phase 2: B''] =
      [TaskItem (str ''Phase 2: B'') [] phase None []]"
    by (simp add: eval_simps)
  have 9: "parse_lines [] 0 [] = []" by (simp add: parse_lines_Nil)
  from parse_document_order [of "[]" ?doc "[]" "str ''## Phase 1: A''"
      "[str ''- [ ] T2 b'', str ''- [x] T1 a'']" "[str ''## Phase 2: B'']" "str ''Phase 1''" "str ''A''"]
    1 2 4 5
  have "map label (parseTasksFile [] ?doc) = phase_names (split_nl ?doc)"
    and "parseTasksFile [] ?doc =
        parse_lines [] 0 [] @
        TaskItem (str ''Phase 1'' @ str '': '' @ str ''A'') [] phase None
          (task_items [] (Suc (length ([] :: jsstring list))) [str ''- [ ] T2 b'', str ''- [x] T1 a'']) #
        parse_lines [] (Suc (length ([] :: jsstring list) +
          length [str ''- [ ] T2 b'', str ''- [x] T1 a''])) [str ''## Phase 2: B'']"
    by blast+
  with 1 2 3 5 6 7 8 9 show ?thesis by simp
qed

text \<open>
  C7. There are as many phases in the result as header lines in the document. A header
  followed by lines that are neither headers nor tasks, up to the next header or the end
  of the document, gives a phase with an empty task list, in its place between the
  phases of the lines before and after.
\<close>

theorem empty_phase_kept:
  "length (parseTasksFile path content) =
     length (filter (\<lambda>l. match_phase l \<noteq> None) (split_nl content)) \<and>
   (split_nl content = pre @ h # body @ rest \<longrightarrow> match_phase h = Some (g1, g2) \<longrightarrow>
    (\<forall>l\<in>set body. match_phase l = None \<and> match_task l = None) \<longrightarrow>
    (rest = [] \<or> match_phase (hd rest) \<noteq> None) \<longrightarrow>
      parseTasksFile path content =
        parse_lines path 0 pre @
        TaskItem (g1 @ str '': '' @ g2) path phase None [] #
        parse_lines path (Suc (length pre + length body)) rest)"
proof (intro conjI impI)
  have "length (map label (parseTasksFile path content)) = length (phase_names (split_nl content))"
    by (simp only: parseTasksFile_def labels_parse_lines)
  then show "length (parseTasksFile path content) =
     length (filter (\<lambda>l. match_phase l \<noteq> None) (split_nl content))"
    by (simp add: length_phase_names)
next
  assume "split_nl content = pre @ h # body @ rest" "match_phase h = Some (g1, g2)"
    "\<forall>l\<in>set body. match_phase l = None \<and> match_task l = None"
    "rest = [] \<or> match_phase (hd rest) \<noteq> None"
  then show "parseTasksFile path content =
        parse_lines path 0 pre @
        TaskItem (g1 @ str '': '' @ g2) path phase None [] #
        parse_lines path (Suc (length pre + length body)) rest"
    using parse_lines_decomp [of h g1 g2 body rest path 0 pre]
      task_items_no_task [of body path "Suc (length pre)"]
    by (simp add: parseTasksFile_def)
qed

theorem empty_phase_kept_witness:
  "split_nl (str ''## Phase 3: Polish'' @ [0x0A] @ str ''notes'' @ [0x0A] @ str ''## Phase 4: Ship'') =
     [] @ str ''## Phase 3: Polish'' # [str ''notes''] @ [str ''## Phase 4: Ship''] \<and>
   match_phase (str ''## Phase 3: Polish'') = Some (str ''Phase 3'', str ''Polish'') \<and>
   match_phase (str ''notes'') = None \<and> match_task (str ''notes'') = None \<and>
   match_phase (hd [str ''## Phase 4: Ship'']) \<noteq> None \<and>
   parseTasksFile [] (str ''## Phase 3: Polish'' @ [0x0A] @ str ''notes'' @ [0x0A] @
       str ''## Phase 4: Ship'') =
     [TaskItem (str ''Phase 3: Polish'') [] phase None [],
      TaskItem (str ''Phase 4: Ship'') [] phase None []]"
proof -
  let ?doc = "str ''## Phase 3: Polish'' @ [0x0A] @ str ''notes'' @ [0x0A] @ str ''## Phase 4: Ship''"
  have 1: "split_nl ?doc = [] @ str ''## Phase 3: Polish'' # [str ''notes''] @ [str ''## Phase 4: Ship'']"
    by (simp add: str_simps)
  have 2: "match_phase (str ''## Phase 3: Polish'') = Some (str ''Phase 3'', str ''Polish'')"
    by (simp add: eval_simps)
  have 3: "match_phase (str ''notes'') = None" "match_task (str ''notes'') = None"
    by (simp_all add: eval_simps)
  then have 4: "\<forall>l\<in>set [str ''notes'']. match_phase l = None \<and> match_task l = None" by simp
  have 5: "match_phase (hd [str ''## Phase 4: Ship'']) \<noteq> None"
    by (simp add: eval_simps)
  have 6: "parse_lines [] (Suc (length ([] :: jsstring list) + length [str ''notes''])) [str ''## Phase 4: Ship''] =
      [TaskItem (str ''Phase 4: Ship'') [] phase None []]"
    by (simp add: eval_simps)
  have 7: "parse_lines [] 0 [] = []" by (simp add: parse_lines_Nil)
  from empty_phase_kept [of "[]" ?doc "[]" "str ''## Phase 3: Polish''" "[str ''notes'']"
      "[str ''## Phase 4: Ship'']" "str ''Phase 3''" "str ''Polish''"] 1 2 4 5
  have "parseTasksFile [] ?doc =
        parse_lines [] 0 [] @
        TaskItem (str ''Phase 3'' @ str '': '' @ str ''Polish'') [] phase None [] #
        parse_lines [] (Suc (length ([] :: jsstring list) + length [str ''notes''])) [str ''## Phase 4: Ship'']"
    by blast
  with 1 2 3 5 6 7 show ?thesis by (simp add: str_simps)
qed

text \<open>
  C8. Every function of the model is total, so \<open>parseTasksFile\<close> returns a list of
  items for every text, and the model has no error value because the source has no
  statement that throws on a string. The empty text, and every text without a phase
  header line, give the empty list.
\<close>

theorem parse_no_phase_empty:
  "parseTasksFile path [] = [] \<and>
   ((\<forall>line\<in>set (split_nl content). match_phase line = None) \<longrightarrow>
      parseTasksFile path content = [])"
  by (simp add: parseTasksFile_def parse_lines_no_header match_phase_def str_simps)

theorem parse_no_phase_empty_witness:
  "split_nl (str ''# Tasks'' @ [0x0A] @ str ''- [ ] T000 early'' @ [0x0A]) =
     [str ''# Tasks'', str ''- [ ] T000 early'', []] \<and>
   match_phase (str ''# Tasks'') = None \<and> match_phase (str ''- [ ] T000 early'') = None \<and>
   match_phase [] = None \<and>
   parseTasksFile [] (str ''# Tasks'' @ [0x0A] @ str ''- [ ] T000 early'' @ [0x0A]) = []"
proof -
  have 1: "split_nl (str ''# Tasks'' @ [0x0A] @ str ''- [ ] T000 early'' @ [0x0A]) =
     [str ''# Tasks'', str ''- [ ] T000 early'', []]"
    by (simp add: str_simps)
  have 2: "match_phase (str ''# Tasks'') = None" "match_phase (str ''- [ ] T000 early'') = None"
    "match_phase [] = None"
    by (simp_all add: eval_simps)
  then have "\<forall>line\<in>set (split_nl (str ''# Tasks'' @ [0x0A] @ str ''- [ ] T000 early'' @ [0x0A])).
      match_phase line = None"
    unfolding 1 by simp
  with parse_no_phase_empty [of "[]" "str ''# Tasks'' @ [0x0A] @ str ''- [ ] T000 early'' @ [0x0A]"] 1 2
  show ?thesis by blast
qed

text \<open>
  C10. The line \<open>- [ ] T001\<close> has nothing after the digits of its id, and the task
  pattern matches it all the same: \<open>\d+\<close> gives back its last digit to \<open>.+\<close>, the id
  captured is \<open>T00\<close> and the text after it is \<open>1\<close>. Under an open phase the line
  produces a task.
\<close>

theorem bare_id_line_matches:
  "match_task (str ''- [ ] T001'') = Some (0x20, str ''T00'', str ''1'') \<and>
   map (map taskData \<circ> tasks)
     (parseTasksFile path (str ''## Phase 1: A'' @ [0x0A] @ str ''- [ ] T001'')) =
   [[Some \<lparr>taskId = str ''T00'', description = str ''1'', isCompleted = False,
            hasParallel = False, story = [], lineNumber = 1\<rparr>]]"
  by (simp add: eval_simps)

end
